theory Spec2Isabelle
  imports Main "HOL-Library.Word" "HOL-Library.Monad_Syntax"
begin

section \<open>C strings and the C library functions the program calls\<close>

text \<open>
  The program is \<^verbatim>\<open>hello_HTTP_SIM.c\<close>: a helper \<^verbatim>\<open>send_at\<close> that writes one AT command
  to the modem's UART and reads the reply, a parser \<^verbatim>\<open>parse_http_length\<close> for the
  \<^verbatim>\<open>+HTTPACTION:\<close> result line, and the straight-line procedure
  \<^verbatim>\<open>sim_http_get_sample\<close> that calls them.

  A \<^verbatim>\<open>char\<close> object (an array, or the memory a \<^verbatim>\<open>char *\<close> points to) is the list of
  its bytes. The string held in it is the bytes before the first NUL. An object with no
  NUL in it holds no string: a C function reading a string from it runs past its end,
  which the model reports as \<open>None\<close>.
\<close>

definition NUL :: char where
  "NUL = CHR 0x00"

definition c_string :: "string \<Rightarrow> string option" where
  "c_string mem = (if NUL \<in> set mem then Some (takeWhile (\<lambda>c. c \<noteq> NUL) mem) else None)"

text \<open>A string literal of the source: its characters followed by the terminating NUL.\<close>

definition lit :: "string \<Rightarrow> string" where
  "lit s = s @ [NUL]"

text \<open>\<^verbatim>\<open>strlen\<close>: the number of bytes before the terminator.\<close>

definition strlen :: "string \<Rightarrow> nat option" where
  "strlen mem = map_option length (c_string mem)"

text \<open>
  The search functions work on the characters of a string (the bytes before its
  terminator). A pointer into the string is the rest of the string from that position
  on, so \<^verbatim>\<open>p + 1\<close> is \<open>tl p\<close> for a \<open>p\<close> that points at a character. A null pointer is
  \<open>None\<close>.
\<close>

fun starts_with :: "string \<Rightarrow> string \<Rightarrow> bool" where
  "starts_with s [] = True"
| "starts_with [] (n # ns) = False"
| "starts_with (c # cs) (n # ns) = (c = n \<and> starts_with cs ns)"

text \<open>\<^verbatim>\<open>strstr(haystack, needle)\<close>: the first position where \<open>needle\<close> occurs.\<close>

fun strstr :: "string \<Rightarrow> string \<Rightarrow> string option" where
  "strstr [] needle = (if needle = [] then Some [] else None)"
| "strstr (c # cs) needle =
     (if starts_with (c # cs) needle then Some (c # cs) else strstr cs needle)"

text \<open>\<^verbatim>\<open>strchr(s, ch)\<close> for a character \<open>ch\<close> other than NUL: its first occurrence.\<close>

fun strchr :: "string \<Rightarrow> char \<Rightarrow> string option" where
  "strchr [] ch = None"
| "strchr (c # cs) ch = (if c = ch then Some (c # cs) else strchr cs ch)"

text \<open>
  \<^verbatim>\<open>atoi\<close>, as the C library of the target (newlib) has it: \<^verbatim>\<open>(int) strtol(s, NULL, 10)\<close>.
  White space is skipped, one sign is accepted, the digits that follow are converted, and
  the conversion stops at the first character that is no digit. \<^verbatim>\<open>long\<close> and \<^verbatim>\<open>int\<close>
  have 32 bits on the target, and \<^verbatim>\<open>strtol\<close> answers a value out of range with the
  nearest bound.
\<close>

definition INT_MAX :: int where
  "INT_MAX = 2147483647"

definition INT_MIN :: int where
  "INT_MIN = - 2147483648"

definition isspace :: "char \<Rightarrow> bool" where
  "isspace c = (c = CHR '' '' \<or> c = CHR 0x09 \<or> c = CHR 0x0A \<or> c = CHR 0x0B
                \<or> c = CHR 0x0C \<or> c = CHR 0x0D)"

definition isdigit :: "char \<Rightarrow> bool" where
  "isdigit c = (48 \<le> (of_char c :: nat) \<and> (of_char c :: nat) \<le> 57)"

definition digit_val :: "char \<Rightarrow> nat" where
  "digit_val c = of_char c - 48"

fun strtol_digits :: "nat \<Rightarrow> string \<Rightarrow> nat" where
  "strtol_digits acc [] = acc"
| "strtol_digits acc (c # cs) =
     (if isdigit c then strtol_digits (acc * 10 + digit_val c) cs else acc)"

definition strtol_clamp :: "int \<Rightarrow> int" where
  "strtol_clamp v = (if v < INT_MIN then INT_MIN else if INT_MAX < v then INT_MAX else v)"

definition atoi :: "string \<Rightarrow> int" where
  "atoi s =
     (case dropWhile isspace s of
        [] \<Rightarrow> 0
      | c # cs \<Rightarrow>
          if c = CHR ''-'' then strtol_clamp (- int (strtol_digits 0 cs))
          else if c = CHR ''+'' then strtol_clamp (int (strtol_digits 0 cs))
          else strtol_clamp (int (strtol_digits 0 (c # cs))))"

text \<open>
  The \<^verbatim>\<open>%d\<close> conversion of \<^verbatim>\<open>snprintf\<close>: the decimal digits, after a minus sign for a
  negative value.
\<close>

definition digit_char :: "nat \<Rightarrow> char" where
  "digit_char d = char_of (48 + d)"

fun dec_digits :: "nat \<Rightarrow> string" where
  "dec_digits n =
     (if n < 10 then [digit_char n] else dec_digits (n div 10) @ [digit_char (n mod 10)])"

declare dec_digits.simps [simp del]

definition fmt_d :: "int \<Rightarrow> string" where
  "fmt_d i = (if i < 0 then CHR ''-'' # dec_digits (nat (- i)) else dec_digits (nat i))"

text \<open>
  \<^verbatim>\<open>snprintf(dst, size, ...)\<close> stores at most \<open>size - 1\<close> characters of the formatted
  output and a terminating NUL. The model takes the formatted output and gives the bytes
  stored; the bytes of \<open>dst\<close> after them are never read.
\<close>

definition snprintf :: "nat \<Rightarrow> string \<Rightarrow> string" where
  "snprintf n out = (if n = 0 then [] else take (n - 1) out @ [NUL])"

section \<open>The length parser\<close>

definition HTTPACTION :: string where
  "HTTPACTION = ''+HTTPACTION:''"

definition parse_http_length :: "string \<Rightarrow> int option" where
  "parse_http_length resp =
     (case c_string resp of
        None \<Rightarrow> None
      | Some s \<Rightarrow>
          Some (case strstr s HTTPACTION of
                  None \<Rightarrow> 0
                | Some p \<Rightarrow>
                    (case strchr p (CHR '','') of
                       None \<Rightarrow> 0
                     | Some p \<Rightarrow>
                         (case strchr (tl p) (CHR '','') of
                            None \<Rightarrow> 0
                          | Some p \<Rightarrow> atoi (tl p)))))"

section \<open>The serial channel\<close>

text \<open>
  The UART driver belongs to the platform (ESP-IDF), not to the program. Its model keeps
  what the program can observe of it:
  \<^item> \<open>rx_fifo\<close>: received bytes waiting in the driver's ring buffer;
  \<^item> \<open>rx_script\<close>: what the modem and the driver do at each coming call of
    \<^verbatim>\<open>uart_read_bytes\<close>, in order: the call fails (\<open>RxError\<close>, the driver returns \<open>-1\<close>
    and stores nothing), or the given bytes arrive before the timeout (\<open>RxBytes\<close>, maybe
    none). Once the script is used up nothing arrives any more. Every behaviour of the
    modem is some script, so a statement for all scripts is one for all replies;
  \<^item> \<open>events\<close>: the driver calls made so far, oldest first.
\<close>

datatype rx_result = RxError | RxBytes string

datatype uart_event = EvFlush | EvWrite string | EvRead nat nat

record uart =
  rx_fifo :: string
  rx_script :: "rx_result list"
  events :: "uart_event list"

definition rx_next :: "uart \<Rightarrow> rx_result" where
  "rx_next u = (case rx_script u of [] \<Rightarrow> RxBytes [] | r # rs \<Rightarrow> r)"

text \<open>\<^verbatim>\<open>uart_flush\<close> discards the received bytes that wait in the ring buffer.\<close>

definition uart_flush :: "uart \<Rightarrow> uart" where
  "uart_flush u = u\<lparr>rx_fifo := [], events := events u @ [EvFlush]\<rparr>"

text \<open>\<^verbatim>\<open>uart_write_bytes(port, src, n)\<close> sends the first \<open>n\<close> bytes of \<open>src\<close>.\<close>

definition uart_write_bytes :: "uart \<Rightarrow> string \<Rightarrow> nat \<Rightarrow> uart" where
  "uart_write_bytes u src n = u\<lparr>events := events u @ [EvWrite (take n src)]\<rparr>"

text \<open>
  \<^verbatim>\<open>uart_read_bytes(port, buf, len, ticks)\<close> stores at most \<open>len\<close> received bytes at the
  start of \<open>buf\<close> and returns their number, or \<open>-1\<close> on an error. Bytes beyond \<open>len\<close>
  stay in the ring buffer. Storing more bytes than \<open>buf\<close> has is a write out of bounds
  (\<open>None\<close>).
\<close>

definition uart_read_bytes :: "uart \<Rightarrow> string \<Rightarrow> nat \<Rightarrow> nat \<Rightarrow> (int \<times> string \<times> uart) option" where
  "uart_read_bytes u buf len ticks =
     (let u' = u\<lparr>rx_script := tl (rx_script u), events := events u @ [EvRead len ticks]\<rparr> in
      case rx_next u of
        RxError \<Rightarrow> Some (- 1, buf, u')
      | RxBytes arriving \<Rightarrow>
          (let avail = rx_fifo u @ arriving; data = take len avail in
           if length data \<le> length buf
           then Some (int (length data), data @ drop (length data) buf,
                      u'\<lparr>rx_fifo := drop len avail\<rparr>)
           else None))"

section \<open>The command transport\<close>

datatype esp_err_t = ESP_OK | ESP_FAIL

definition CRLF :: string where
  "CRLF = [CHR 0x0D, CHR 0x0A]"

text \<open>
  \<^verbatim>\<open>send_at(cmd, resp_buf, buf_size, timeout_ms)\<close>. \<^verbatim>\<open>size_t\<close> has 32 bits, so
  \<open>buf_size - 1\<close> wraps around at \<open>buf_size = 0\<close>. The result is the status, the buffer
  and the channel after the call; \<open>None\<close> is a read or write outside an object. The two
  log lines are not part of the model.
\<close>

definition send_at :: "string \<Rightarrow> string \<Rightarrow> 32 word \<Rightarrow> nat \<Rightarrow> uart \<Rightarrow> (esp_err_t \<times> string \<times> uart) option" where
  "send_at cmd resp_buf buf_size timeout_ms u =
     (let u1 = uart_flush u in
      case strlen cmd of
        None \<Rightarrow> None
      | Some n \<Rightarrow>
          (let u2 = uart_write_bytes u1 cmd n;
               u3 = uart_write_bytes u2 CRLF 2 in
           case uart_read_bytes u3 resp_buf (unat (buf_size - 1)) timeout_ms of
             None \<Rightarrow> None
           | Some (len, buf, u4) \<Rightarrow>
               if len < 0 then Some (ESP_FAIL, buf, u4)
               else if nat len < length buf then Some (ESP_OK, buf[nat len := NUL], u4)
               else None))"

section \<open>The command sequence\<close>

definition UART_BUF_SIZE :: nat where
  "UART_BUF_SIZE = 1024"

text \<open>
  \<^verbatim>\<open>sim_http_get_sample\<close>. The local array \<^verbatim>\<open>resp\<close> is not initialised: \<open>resp0\<close> is
  what it holds on entry, any \<open>UART_BUF_SIZE\<close> bytes. The macro \<^verbatim>\<open>pdMS_TO_TICKS\<close> comes from
  the configuration of the operating system, which is not part of the repository: the
  conversion from milliseconds to ticks is the parameter \<open>pdMS_TO_TICKS\<close>. The function
  returns nothing: its effect is the state of the channel it leaves behind (\<open>None\<close> where
  a call reads or writes outside an object).
\<close>

definition sim_http_get_sample :: "(nat \<Rightarrow> nat) \<Rightarrow> string \<Rightarrow> uart \<Rightarrow> uart option" where
  \<open>sim_http_get_sample pdMS_TO_TICKS resp0 u0 = do {
     \<comment> \<open>1) PDP bring-up\<close>
     (_, resp, u) \<leftarrow> send_at (lit ''AT+CGATT?'') resp0
                       (of_nat UART_BUF_SIZE) (pdMS_TO_TICKS 500) u0;
     (_, resp, u) \<leftarrow> send_at (lit ''AT+CGDCONT=1,"IP","everywhere"'') resp
                       (of_nat UART_BUF_SIZE) (pdMS_TO_TICKS 500) u;
     (_, resp, u) \<leftarrow> send_at (lit ''AT+CGAUTH=1,1,"eesecure","secure"'') resp
                       (of_nat UART_BUF_SIZE) (pdMS_TO_TICKS 500) u;
     (_, resp, u) \<leftarrow> send_at (lit ''AT+CGACT=1,1'') resp
                       (of_nat UART_BUF_SIZE) (pdMS_TO_TICKS 2000) u;
     (_, resp, u) \<leftarrow> send_at (lit ''AT+CGPADDR=1'') resp
                       (of_nat UART_BUF_SIZE) (pdMS_TO_TICKS 500) u;
     \<comment> \<open>2) HTTPS GET\<close>
     (_, resp, u) \<leftarrow> send_at (lit ''AT+HTTPTERM'') resp
                       (of_nat UART_BUF_SIZE) (pdMS_TO_TICKS 500) u;
     (_, resp, u) \<leftarrow> send_at (lit ''AT+HTTPINIT'') resp
                       (of_nat UART_BUF_SIZE) (pdMS_TO_TICKS 500) u;
     (_, resp, u) \<leftarrow> send_at (lit ''AT+HTTPSSL=1'') resp
                       (of_nat UART_BUF_SIZE) (pdMS_TO_TICKS 500) u;
     (_, resp, u) \<leftarrow> send_at (lit ''AT+HTTPPARA="URL","https://alusys.io/test/sample.bin"'') resp
                       (of_nat UART_BUF_SIZE) (pdMS_TO_TICKS 500) u;
     (_, resp, u) \<leftarrow> send_at (lit ''AT+HTTPPARA="READMODE",1'') resp
                       (of_nat UART_BUF_SIZE) (pdMS_TO_TICKS 500) u;
     \<comment> \<open>fire it and get length\<close>
     (_, resp, u) \<leftarrow> send_at (lit ''AT+HTTPACTION=0'') resp
                       (of_nat UART_BUF_SIZE) (pdMS_TO_TICKS 10000) u;
     len \<leftarrow> parse_http_length resp;
     (resp, u) \<leftarrow>
       (if len > 0 then do {
          let cmd = snprintf 32 (''AT+HTTPREAD=0,'' @ fmt_d len);
          (_, resp, u) \<leftarrow> send_at cmd resp
                            (of_nat UART_BUF_SIZE) (pdMS_TO_TICKS 10000) u;
          Some (resp, u)
        } else Some (resp, u));
     \<comment> \<open>tear down\<close>
     (_, resp, u) \<leftarrow> send_at (lit ''AT+HTTPTERM'') resp
                       (of_nat UART_BUF_SIZE) (pdMS_TO_TICKS 500) u;
     (_, resp, u) \<leftarrow> send_at (lit ''AT+HTTPSSL=0'') resp
                       (of_nat UART_BUF_SIZE) (pdMS_TO_TICKS 500) u;
     Some u
   }\<close>

text \<open>
  For the statements about the sequence: \<open>send_all\<close> issues a list of command lines,
  each with its timeout, through \<open>send_at\<close> with the buffer \<^verbatim>\<open>resp\<close>, dropping every
  status as the body of \<open>sim_http_get_sample\<close> does. \<open>http_action_cmds\<close> are the eleven
  calls of the source up to \<^verbatim>\<open>AT+HTTPACTION=0\<close>, \<open>teardown_cmds\<close> its last two, and
  \<open>at_exchange\<close> is the driver calls of one \<open>send_at\<close> on that buffer.
\<close>

fun send_all :: "(string \<times> nat) list \<Rightarrow> string \<Rightarrow> uart \<Rightarrow> (string \<times> uart) option" where
  "send_all [] resp u = Some (resp, u)"
| "send_all ((line, ticks) # cs) resp u =
     (case send_at (lit line) resp (of_nat UART_BUF_SIZE) ticks u of
        None \<Rightarrow> None
      | Some (_, resp', u') \<Rightarrow> send_all cs resp' u')"

definition http_action_cmds :: "(nat \<Rightarrow> nat) \<Rightarrow> (string \<times> nat) list" where
  \<open>http_action_cmds pdMS_TO_TICKS =
     [(''AT+CGATT?'', pdMS_TO_TICKS 500),
      (''AT+CGDCONT=1,"IP","everywhere"'', pdMS_TO_TICKS 500),
      (''AT+CGAUTH=1,1,"eesecure","secure"'', pdMS_TO_TICKS 500),
      (''AT+CGACT=1,1'', pdMS_TO_TICKS 2000),
      (''AT+CGPADDR=1'', pdMS_TO_TICKS 500),
      (''AT+HTTPTERM'', pdMS_TO_TICKS 500),
      (''AT+HTTPINIT'', pdMS_TO_TICKS 500),
      (''AT+HTTPSSL=1'', pdMS_TO_TICKS 500),
      (''AT+HTTPPARA="URL","https://alusys.io/test/sample.bin"'', pdMS_TO_TICKS 500),
      (''AT+HTTPPARA="READMODE",1'', pdMS_TO_TICKS 500),
      (''AT+HTTPACTION=0'', pdMS_TO_TICKS 10000)]\<close>

definition teardown_cmds :: "(nat \<Rightarrow> nat) \<Rightarrow> (string \<times> nat) list" where
  "teardown_cmds pdMS_TO_TICKS =
     [(''AT+HTTPTERM'', pdMS_TO_TICKS 500),
      (''AT+HTTPSSL=0'', pdMS_TO_TICKS 500)]"

definition at_exchange :: "string \<times> nat \<Rightarrow> uart_event list" where
  "at_exchange c =
     [EvFlush, EvWrite (fst c), EvWrite CRLF, EvRead (UART_BUF_SIZE - 1) (snd c)]"

text \<open>A tick conversion for the examples: the macro at a tick rate of 100 Hz.\<close>

definition ms_to_ticks_100hz :: "nat \<Rightarrow> nat" where
  "ms_to_ticks_100hz ms = ms * 100 div 1000"

section \<open>Properties of the library functions\<close>

lemma starts_with_iff: "starts_with s n \<longleftrightarrow> (\<exists>b. s = n @ b)"
  by (induction s n rule: starts_with.induct) auto

lemma strstr_None_iff: "strstr s n = None \<longleftrightarrow> \<not> (\<exists>a b. s = a @ n @ b)"
proof (induction s)
  case Nil
  then show ?case by auto
next
  case (Cons c cs)
  show ?case
  proof (cases "starts_with (c # cs) n")
    case True
    then obtain b where "c # cs = [] @ n @ b" by (auto simp: starts_with_iff)
    then have "\<exists>a b. c # cs = a @ n @ b" by blast
    with True show ?thesis by simp
  next
    case False
    have "(\<exists>a b. c # cs = a @ n @ b) \<longleftrightarrow> (\<exists>a b. cs = a @ n @ b)"
    proof
      assume "\<exists>a b. c # cs = a @ n @ b"
      then obtain a b where ab: "c # cs = a @ n @ b" by blast
      show "\<exists>a b. cs = a @ n @ b"
      proof (cases a)
        case Nil
        with ab False show ?thesis by (simp add: starts_with_iff)
      next
        case (Cons x xs)
        with ab have "cs = xs @ n @ b" by simp
        then show ?thesis by blast
      qed
    next
      assume "\<exists>a b. cs = a @ n @ b"
      then obtain a b where "cs = a @ n @ b" by blast
      then have "c # cs = (c # a) @ n @ b" by simp
      then show "\<exists>a b. c # cs = a @ n @ b" by blast
    qed
    with False Cons.IH show ?thesis by simp
  qed
qed

lemma strstr_Some:
  "strstr s n = Some p \<Longrightarrow>
     \<exists>a b. s = a @ p \<and> p = n @ b \<and> (\<forall>a' b'. s = a' @ n @ b' \<longrightarrow> length a \<le> length a')"
proof (induction s)
  case Nil
  then show ?case by (auto split: if_splits)
next
  case (Cons c cs)
  show ?case
  proof (cases "starts_with (c # cs) n")
    case True
    with Cons.prems have p: "p = c # cs" by simp
    from True obtain b where "c # cs = n @ b" by (auto simp: starts_with_iff)
    with p have "c # cs = [] @ p \<and> p = n @ b \<and> (\<forall>a' b'. c # cs = a' @ n @ b' \<longrightarrow> length ([]::string) \<le> length a')"
      by simp
    then show ?thesis by blast
  next
    case False
    with Cons.prems have "strstr cs n = Some p" by simp
    from Cons.IH [OF this] obtain a b where
      ab: "cs = a @ p" "p = n @ b" "\<forall>a' b'. cs = a' @ n @ b' \<longrightarrow> length a \<le> length a'"
      by blast
    have "\<forall>a' b'. c # cs = a' @ n @ b' \<longrightarrow> length (c # a) \<le> length a'"
    proof (intro allI impI)
      fix a' b'
      assume h: "c # cs = a' @ n @ b'"
      show "length (c # a) \<le> length a'"
      proof (cases a')
        case Nil
        with h False show ?thesis by (simp add: starts_with_iff)
      next
        case (Cons x xs)
        with h have "cs = xs @ n @ b'" by simp
        with ab(3) have "length a \<le> length xs" by blast
        with Cons show ?thesis by simp
      qed
    qed
    with ab(1,2) have "c # cs = (c # a) @ p \<and> p = n @ b \<and> (\<forall>a' b'. c # cs = a' @ n @ b' \<longrightarrow> length (c # a) \<le> length a')"
      by simp
    then show ?thesis by blast
  qed
qed

lemma strstr_first:
  assumes s: "s = a @ n @ b"
    and first: "\<forall>a' b'. s = a' @ n @ b' \<longrightarrow> length a \<le> length a'"
  shows "strstr s n = Some (n @ b)"
proof -
  from s have "strstr s n \<noteq> None" by (auto simp: strstr_None_iff)
  then obtain p where p: "strstr s n = Some p" by blast
  from strstr_Some [OF p] obtain a2 b2 where
    h: "s = a2 @ p" "p = n @ b2" "\<forall>a' b'. s = a' @ n @ b' \<longrightarrow> length a2 \<le> length a'"
    by blast
  from h(3) s have "length a2 \<le> length a" by blast
  moreover from first h(1,2) have "length a \<le> length a2" by blast
  ultimately have "length a2 = length a" by simp
  with s h(1) have "p = n @ b" by (metis append_eq_append_conv)
  with p show ?thesis by simp
qed

lemma strchr_None_iff: "strchr s ch = None \<longleftrightarrow> ch \<notin> set s"
  by (induction s) auto

lemma strchr_append: "ch \<notin> set a \<Longrightarrow> strchr (a @ ch # r) ch = Some (ch # r)"
  by (induction a) auto

lemma strchr_Some:
  "strchr s ch = Some p \<Longrightarrow> \<exists>x r. s = x @ ch # r \<and> p = ch # r \<and> ch \<notin> set x"
proof (induction s)
  case Nil
  then show ?case by simp
next
  case (Cons c cs)
  show ?case
  proof (cases "c = ch")
    case True
    with Cons.prems have "c # cs = [] @ ch # cs \<and> p = ch # cs \<and> ch \<notin> set ([]::string)" by simp
    then show ?thesis by blast
  next
    case False
    with Cons.prems have "strchr cs ch = Some p" by simp
    from Cons.IH [OF this] obtain x r where "cs = x @ ch # r" "p = ch # r" "ch \<notin> set x" by blast
    with False have "c # cs = (c # x) @ ch # r \<and> p = ch # r \<and> ch \<notin> set (c # x)" by simp
    then show ?thesis by blast
  qed
qed

lemma digit_char_eval:
  "digit_char 0 = CHR ''0''" "digit_char 1 = CHR ''1''" "digit_char 2 = CHR ''2''"
  "digit_char 3 = CHR ''3''" "digit_char 4 = CHR ''4''" "digit_char 5 = CHR ''5''"
  "digit_char 6 = CHR ''6''" "digit_char 7 = CHR ''7''" "digit_char 8 = CHR ''8''"
  "digit_char 9 = CHR ''9''" "digit_char (Suc 0) = CHR ''1''"
  by code_simp+

lemma digit_char_digit: "d < 10 \<Longrightarrow> isdigit (digit_char d)"
  by (simp add: isdigit_def digit_char_def)

lemma digit_val_digit_char: "d < 10 \<Longrightarrow> digit_val (digit_char d) = d"
  by (simp add: digit_val_def digit_char_def)

lemma dec_digits_all_digits: "c \<in> set (dec_digits n) \<Longrightarrow> isdigit c"
proof (induction n rule: dec_digits.induct)
  case (1 n)
  show ?case
  proof (cases "n < 10")
    case True
    with "1.prems" show ?thesis by (simp add: dec_digits.simps [of n] digit_char_digit)
  next
    case False
    with "1.prems" "1.IH" show ?thesis
      by (auto simp: dec_digits.simps [of n] digit_char_digit)
  qed
qed

lemma dec_digits_not_Nil: "dec_digits n \<noteq> []"
  by (simp add: dec_digits.simps [of n])

lemma length_dec_digits: "n < 10 ^ k \<Longrightarrow> 0 < k \<Longrightarrow> length (dec_digits n) \<le> k"
proof (induction n arbitrary: k rule: dec_digits.induct)
  case (1 n)
  show ?case
  proof (cases "n < 10")
    case True
    with "1.prems" show ?thesis by (simp add: dec_digits.simps [of n])
  next
    case False
    from False "1.prems" have "k \<noteq> 1" by auto
    with "1.prems" obtain j where j: "k = Suc j" "0 < j" by (cases k) auto
    with "1.prems" have "n div 10 < 10 ^ j" by (simp add: less_mult_imp_div_less mult.commute)
    from "1.IH" [OF False this j(2)] j False show ?thesis
      by (simp add: dec_digits.simps [of n])
  qed
qed

lemma strtol_digits_dec:
  "strtol_digits acc (dec_digits n @ r) =
     strtol_digits (acc * 10 ^ length (dec_digits n) + n) r"
proof (induction n arbitrary: acc r rule: dec_digits.induct)
  case (1 n)
  show ?case
  proof (cases "n < 10")
    case True
    then show ?thesis
      by (cases r) (simp_all add: dec_digits.simps [of n] digit_char_digit digit_val_digit_char)
  next
    case False
    have m: "n mod 10 < 10" by simp
    have "strtol_digits acc (dec_digits n @ r) =
          strtol_digits acc (dec_digits (n div 10) @ digit_char (n mod 10) # r)"
      using False by (simp add: dec_digits.simps [of n])
    also have "\<dots> = strtol_digits (acc * 10 ^ length (dec_digits (n div 10)) + n div 10)
                       (digit_char (n mod 10) # r)"
      by (rule "1.IH" [OF False])
    also have "\<dots> = strtol_digits
                       ((acc * 10 ^ length (dec_digits (n div 10)) + n div 10) * 10 + n mod 10) r"
      using m by (simp add: digit_char_digit digit_val_digit_char del: mod_less_divisor)
    also have "(acc * 10 ^ length (dec_digits (n div 10)) + n div 10) * 10 + n mod 10 =
               acc * 10 ^ length (dec_digits n) + n"
      using False by (simp add: dec_digits.simps [of n] algebra_simps)
    finally show ?thesis .
  qed
qed

lemma strtol_digits_dec_digits: "strtol_digits 0 (dec_digits n) = n"
  using strtol_digits_dec [of 0 n "[]"] by simp

lemma isdigit_not_space: "isdigit c \<Longrightarrow> \<not> isspace c \<and> c \<noteq> CHR ''-'' \<and> c \<noteq> CHR ''+''"
  by (auto simp: isdigit_def isspace_def)

lemma atoi_dec_digits: "atoi (dec_digits n) = strtol_clamp (int n)"
proof -
  obtain c cs where d: "dec_digits n = c # cs"
    using dec_digits_not_Nil [of n] by (cases "dec_digits n") auto
  then have "isdigit c" using dec_digits_all_digits [of c n] by simp
  then have c: "\<not> isspace c" "c \<noteq> CHR ''-''" "c \<noteq> CHR ''+''"
    using isdigit_not_space by blast+
  from d c(1) have "dropWhile isspace (dec_digits n) = c # cs" by simp
  with c(2,3) have "atoi (dec_digits n) = strtol_clamp (int (strtol_digits 0 (c # cs)))"
    by (simp add: atoi_def del: strtol_digits.simps)
  then show ?thesis unfolding d [symmetric] by (simp only: strtol_digits_dec_digits)
qed

lemma starts_with_overlap:
  assumes sw: "starts_with (x @ m @ r) m"
    and x: "x \<noteq> []"
    and m: "m \<noteq> []" "hd m \<notin> set (tl m)"
  shows "starts_with x m"
proof (cases "length m \<le> length x")
  case True
  from sw obtain b where b: "x @ m @ r = m @ b" by (auto simp: starts_with_iff)
  then have "take (length m) (x @ m @ r) = m" by simp
  with True have "take (length m) x = m" by simp
  then have "x = m @ drop (length m) x" by (metis append_take_drop_id)
  then show ?thesis by (auto simp: starts_with_iff)
next
  case False
  then have k: "length x < length m" by simp
  from sw obtain b where b: "x @ m @ r = m @ b" by (auto simp: starts_with_iff)
  have "(x @ m @ r) ! length x = hd m"
    using m(1) by (simp add: nth_append hd_conv_nth)
  moreover have "(m @ b) ! length x = m ! length x"
    using k by (simp add: nth_append)
  ultimately have "m ! length x = hd m" using b by simp
  moreover from x have "0 < length x" by simp
  ultimately have "hd m \<in> set (tl m)"
    using k by (metis Suc_pred' in_set_conv_nth length_tl less_diff_conv nth_tl Suc_eq_plus1)
  with m(2) show ?thesis by simp
qed

lemma strstr_marker_after:
  assumes m: "m \<noteq> []" "hd m \<notin> set (tl m)"
  shows "strstr pre m = None \<Longrightarrow> strstr (pre @ m @ r) m = Some (m @ r)"
proof (induction pre)
  case Nil
  from m(1) obtain c cs where "m @ r = c # cs" by (cases m) auto
  moreover have "starts_with (m @ r) m" by (auto simp: starts_with_iff)
  ultimately show ?case by simp
next
  case (Cons c cs)
  from Cons.prems have n: "\<not> starts_with (c # cs) m" "strstr cs m = None"
    by (auto split: if_splits)
  have "\<not> starts_with ((c # cs) @ m @ r) m"
    using starts_with_overlap [of "c # cs" m r] m n(1) by blast
  with Cons.IH [OF n(2)] show ?case by simp
qed

lemma c_string_take: "c_string mem = Some s \<Longrightarrow> take (length s) mem = s"
  by (auto simp: c_string_def takeWhile_eq_take [symmetric] split: if_splits)

lemma strlen_c_string: "c_string mem = Some s \<Longrightarrow> strlen mem = Some (length s)"
  by (simp add: strlen_def)

lemma c_string_lit_any: "c_string (lit s) = Some (takeWhile (\<lambda>c. c \<noteq> NUL) s)"
  by (induction s) (auto simp: c_string_def lit_def)

lemma c_string_lit: "NUL \<notin> set s \<Longrightarrow> c_string (lit s) = Some s"
  by (auto simp: c_string_lit_any)

lemma c_string_data:
  "c_string (a @ NUL # b) = Some (takeWhile (\<lambda>c. c \<noteq> NUL) a)"
  by (induction a) (auto simp: c_string_def)

lemma c_string_Some_iff: "(\<exists>s. c_string mem = Some s) \<longleftrightarrow> NUL \<in> set mem"
  by (simp add: c_string_def)

lemma snprintf_lit: "0 < n \<Longrightarrow> snprintf n out = lit (take (n - 1) out)"
  by (simp add: snprintf_def lit_def)

lemma atoi_range: "INT_MIN \<le> atoi s \<and> atoi s \<le> INT_MAX"
  by (simp add: atoi_def strtol_clamp_def INT_MIN_def INT_MAX_def split: list.splits)

lemma length_fmt_d:
  assumes "INT_MIN \<le> i" and "i \<le> INT_MAX"
  shows "length (fmt_d i) \<le> 11"
proof (cases "i < 0")
  case True
  with assms have "nat (- i) < 10 ^ 10" by (simp add: INT_MIN_def)
  then have "length (dec_digits (nat (- i))) \<le> 10" by (rule length_dec_digits) simp
  with True show ?thesis by (simp add: fmt_d_def)
next
  case False
  with assms have "nat i < 10 ^ 10" by (simp add: INT_MAX_def)
  then have "length (dec_digits (nat i)) \<le> 10" by (rule length_dec_digits) simp
  with False show ?thesis by (simp add: fmt_d_def)
qed

lemma isdigit_not_NUL: "isdigit c \<Longrightarrow> c \<noteq> NUL"
  by (auto simp: isdigit_def NUL_def)

lemma fmt_d_no_NUL: "NUL \<notin> set (fmt_d i)"
  using dec_digits_all_digits isdigit_not_NUL
  by (auto simp: fmt_d_def) (simp add: NUL_def)

lemma read_cmd_fits:
  assumes "INT_MIN \<le> i" and "i \<le> INT_MAX"
  shows "take 31 (''AT+HTTPREAD=0,'' @ fmt_d i) = ''AT+HTTPREAD=0,'' @ fmt_d i"
  using length_fmt_d [OF assms] by simp

lemma read_cmd_no_NUL: "NUL \<notin> set (''AT+HTTPREAD=0,'' @ fmt_d i)"
  using fmt_d_no_NUL [of i] by (simp add: NUL_def)

section \<open>The length parser: claims C1 and C2\<close>

lemma parse_http_length_range:
  "parse_http_length resp = Some len \<Longrightarrow> INT_MIN \<le> len \<and> len \<le> INT_MAX"
  using atoi_range
  by (auto simp: parse_http_length_def INT_MIN_def INT_MAX_def split: option.splits)

lemma parse_http_length_Some_iff:
  "(\<exists>len. parse_http_length resp = Some len) \<longleftrightarrow> NUL \<in> set resp"
  by (auto simp: parse_http_length_def c_string_def)

lemmas parse_string_eval = HTTPACTION_def atoi_def isspace_def isdigit_def digit_val_def
  strtol_clamp_def INT_MAX_def INT_MIN_def

lemma HTTPACTION_shape: "HTTPACTION \<noteq> []" "hd HTTPACTION \<notin> set (tl HTTPACTION)"
  "CHR '','' \<notin> set HTTPACTION"
  by (simp_all add: HTTPACTION_def)

lemma parse_http_length_string:
  "c_string resp = Some s \<Longrightarrow>
   parse_http_length resp =
     Some (case strstr s HTTPACTION of None \<Rightarrow> 0
           | Some p \<Rightarrow> (case strchr p (CHR '','') of None \<Rightarrow> 0
               | Some p \<Rightarrow> (case strchr (tl p) (CHR '','') of None \<Rightarrow> 0
                   | Some p \<Rightarrow> atoi (tl p))))"
  by (simp add: parse_http_length_def)

text \<open>
  Claim C1, as the code has it. Let the string at \<open>resp\<close> be a prefix, the marker
  \<^verbatim>\<open>+HTTPACTION:\<close>, two fields without a comma, each followed by a comma, and the decimal
  digits of a natural number \<open>N\<close>. If the marker does not occur inside the prefix and
  \<open>N\<close> is at most \<open>INT_MAX\<close>, then \<open>parse_http_length\<close> returns \<open>N\<close>. The two examples of
  the claim, \<^verbatim>\<open>+HTTPACTION: 0,200,4096\<close> and \<^verbatim>\<open>+HTTPACTION: 0,404,0\<close>, are the instances
  evaluated after the theorem.
\<close>

theorem parse_http_length_fields:
  assumes str: "c_string resp = Some (pre @ HTTPACTION @ f1 @ '','' @ f2 @ '','' @ dec_digits N)"
    and pre: "\<not> (\<exists>a b. pre = a @ HTTPACTION @ b)"
    and f1: "CHR '','' \<notin> set f1"
    and f2: "CHR '','' \<notin> set f2"
    and N: "int N \<le> INT_MAX"
  shows "parse_http_length resp = Some (int N)"
proof -
  let ?tail2 = "CHR '','' # dec_digits N"
  let ?tail1 = "CHR '','' # f2 @ ?tail2"
  from pre have "strstr pre HTTPACTION = None" by (simp add: strstr_None_iff)
  then have 1: "strstr (pre @ HTTPACTION @ f1 @ ?tail1) HTTPACTION = Some (HTTPACTION @ f1 @ ?tail1)"
    by (rule strstr_marker_after [OF HTTPACTION_shape(1,2)])
  have 2: "strchr (HTTPACTION @ f1 @ ?tail1) (CHR '','') = Some ?tail1"
    using strchr_append [of "CHR '',''" "HTTPACTION @ f1" "f2 @ ?tail2"] f1 HTTPACTION_shape(3)
    by simp
  have 3: "strchr (f2 @ ?tail2) (CHR '','') = Some ?tail2"
    using strchr_append [of "CHR '',''" f2 "dec_digits N"] f2 by simp
  have 4: "atoi (dec_digits N) = int N"
    using N by (simp add: atoi_dec_digits strtol_clamp_def INT_MIN_def INT_MAX_def)
  from 1 2 3 4 show ?thesis
    by (simp add: parse_http_length_string [OF str])
qed

text \<open>The theorem at the two example strings: they yield 4096 and 0.\<close>

theorem parse_http_length_fields_witness:
  "c_string (lit ''+HTTPACTION: 0,200,4096'') =
     Some ([] @ HTTPACTION @ '' 0'' @ '','' @ ''200'' @ '','' @ dec_digits 4096)
   \<and> c_string (lit ''+HTTPACTION: 0,404,0'') =
     Some ([] @ HTTPACTION @ '' 0'' @ '','' @ ''404'' @ '','' @ dec_digits 0)
   \<and> \<not> (\<exists>a b. [] = a @ HTTPACTION @ b)
   \<and> CHR '','' \<notin> set '' 0'' \<and> CHR '','' \<notin> set ''200'' \<and> CHR '','' \<notin> set ''404''
   \<and> int 4096 \<le> INT_MAX \<and> int 0 \<le> INT_MAX
   \<and> parse_http_length (lit ''+HTTPACTION: 0,200,4096'') = Some 4096
   \<and> parse_http_length (lit ''+HTTPACTION: 0,404,0'') = Some 0"
proof -
  have a: "c_string (lit ''+HTTPACTION: 0,200,4096'') =
     Some ([] @ HTTPACTION @ '' 0'' @ '','' @ ''200'' @ '','' @ dec_digits 4096)"
    by (simp add: c_string_def lit_def NUL_def HTTPACTION_def dec_digits.simps digit_char_eval)
  have b: "c_string (lit ''+HTTPACTION: 0,404,0'') =
     Some ([] @ HTTPACTION @ '' 0'' @ '','' @ ''404'' @ '','' @ dec_digits 0)"
    by (simp add: c_string_def lit_def NUL_def HTTPACTION_def dec_digits.simps digit_char_eval)
  have p: "\<not> (\<exists>a b. [] = a @ HTTPACTION @ b)" by (simp add: HTTPACTION_def)
  have f: "CHR '','' \<notin> set '' 0''" "CHR '','' \<notin> set ''200''" "CHR '','' \<notin> set ''404''"
    by simp_all
  have n: "int 4096 \<le> INT_MAX" "int 0 \<le> INT_MAX" by (simp_all add: INT_MAX_def)
  from parse_http_length_fields [OF a p f(1) f(2) n(1)]
    parse_http_length_fields [OF b p f(1) f(3) n(2)] a b p f n
  show ?thesis by simp
qed

text \<open>
  Without the two conditions the statement of C1 fails. \<open>strstr\<close> stops at the first
  marker, so a prefix that holds a marker of its own decides the result (here 3, not
  4096); and the result is an \<^verbatim>\<open>int\<close>, so it is never 2147483648.
\<close>

theorem parse_http_length_fields_counterexample:
  "parse_http_length (lit (''+HTTPACTION:1,2,3;'' @ HTTPACTION @ '' 0'' @ '','' @ ''200''
      @ '','' @ dec_digits 4096)) = Some 3
   \<and> parse_http_length (lit ([] @ HTTPACTION @ '' 0'' @ '','' @ ''200''
      @ '','' @ dec_digits 2147483648)) \<noteq> Some 2147483648"
  by (simp add: parse_http_length_def lit_def c_string_def NUL_def HTTPACTION_def atoi_def
      isspace_def isdigit_def digit_val_def strtol_clamp_def INT_MAX_def INT_MIN_def
      dec_digits.simps digit_char_eval)

text \<open>
  Claim C2. If the string at \<open>resp\<close> does not contain the marker \<^verbatim>\<open>+HTTPACTION:\<close>, or
  contains it and has fewer than two commas from the first occurrence of the marker on,
  then \<open>parse_http_length\<close> returns 0.
\<close>

theorem parse_http_length_zero:
  assumes str: "c_string resp = Some s"
    and bad: "\<not> (\<exists>a b. s = a @ HTTPACTION @ b)
      \<or> (\<exists>a b. s = a @ HTTPACTION @ b
            \<and> (\<forall>a' b'. s = a' @ HTTPACTION @ b' \<longrightarrow> length a \<le> length a')
            \<and> count_list (HTTPACTION @ b) (CHR '','') < 2)"
  shows "parse_http_length resp = Some 0"
proof -
  from bad show ?thesis
  proof
    assume "\<not> (\<exists>a b. s = a @ HTTPACTION @ b)"
    then have "strstr s HTTPACTION = None" by (simp add: strstr_None_iff)
    then show ?thesis by (simp add: parse_http_length_string [OF str])
  next
    assume "\<exists>a b. s = a @ HTTPACTION @ b
            \<and> (\<forall>a' b'. s = a' @ HTTPACTION @ b' \<longrightarrow> length a \<le> length a')
            \<and> count_list (HTTPACTION @ b) (CHR '','') < 2"
    then obtain a b where s: "s = a @ HTTPACTION @ b"
      and first: "\<forall>a' b'. s = a' @ HTTPACTION @ b' \<longrightarrow> length a \<le> length a'"
      and few: "count_list (HTTPACTION @ b) (CHR '','') < 2"
      by blast
    from strstr_first [OF s first]
    have 1: "strstr s HTTPACTION = Some (HTTPACTION @ b)" .
    show ?thesis
    proof (cases "strchr (HTTPACTION @ b) (CHR '','')")
      case None
      with 1 show ?thesis by (simp add: parse_http_length_string [OF str])
    next
      case (Some p)
      from strchr_Some [OF Some] obtain x r where
        xr: "HTTPACTION @ b = x @ CHR '','' # r" "p = CHR '','' # r" by blast
      from few xr(1) have "count_list r (CHR '','') = 0" by simp
      then have "CHR '','' \<notin> set r" by (simp add: count_list_0_iff)
      then have "strchr (tl p) (CHR '','') = None" using xr(2) by (simp add: strchr_None_iff)
      with 1 Some show ?thesis by (simp add: parse_http_length_string [OF str])
    qed
  qed
qed

text \<open>The theorem at \<^verbatim>\<open>OK\<close> (no marker) and at \<^verbatim>\<open>+HTTPACTION: 0,200\<close> (one comma).\<close>

theorem parse_http_length_zero_witness:
  "c_string (lit ''OK'') = Some ''OK''
   \<and> \<not> (\<exists>a b. ''OK'' = a @ HTTPACTION @ b)
   \<and> parse_http_length (lit ''OK'') = Some 0
   \<and> c_string (lit ''+HTTPACTION: 0,200'') = Some ''+HTTPACTION: 0,200''
   \<and> (\<exists>a b. ''+HTTPACTION: 0,200'' = a @ HTTPACTION @ b
         \<and> (\<forall>a' b'. ''+HTTPACTION: 0,200'' = a' @ HTTPACTION @ b' \<longrightarrow> length a \<le> length a')
         \<and> count_list (HTTPACTION @ b) (CHR '','') < 2)
   \<and> parse_http_length (lit ''+HTTPACTION: 0,200'') = Some 0"
proof -
  have a: "c_string (lit ''OK'') = Some ''OK''"
    by (simp add: c_string_def lit_def NUL_def)
  have b: "\<not> (\<exists>a b. ''OK'' = a @ HTTPACTION @ b)"
    unfolding strstr_None_iff [symmetric] by (simp add: HTTPACTION_def)
  have c: "c_string (lit ''+HTTPACTION: 0,200'') = Some ''+HTTPACTION: 0,200''"
    by (simp add: c_string_def lit_def NUL_def)
  have "''+HTTPACTION: 0,200'' = [] @ HTTPACTION @ '' 0,200''
         \<and> (\<forall>a' b'. ''+HTTPACTION: 0,200'' = a' @ HTTPACTION @ b' \<longrightarrow> length ([]::string) \<le> length a')
         \<and> count_list (HTTPACTION @ '' 0,200'') (CHR '','') < 2"
    by (simp add: HTTPACTION_def)
  then have d: "\<exists>a b. ''+HTTPACTION: 0,200'' = a @ HTTPACTION @ b
         \<and> (\<forall>a' b'. ''+HTTPACTION: 0,200'' = a' @ HTTPACTION @ b' \<longrightarrow> length a \<le> length a')
         \<and> count_list (HTTPACTION @ b) (CHR '','') < 2"
    by blast
  from parse_http_length_zero [OF a disjI1 [OF b]] parse_http_length_zero [OF c disjI2 [OF d]]
    a b c d
  show ?thesis by blast
qed

section \<open>The command transport: claims C3, C7, C8 and C10\<close>

lemma store_terminator:
  "k < length buf \<Longrightarrow> length data = k \<Longrightarrow>
   (data @ drop k buf)[k := NUL] = data @ NUL # drop (Suc k) buf"
  by (simp add: list_update_append upd_conv_take_nth_drop drop_Suc [symmetric] Cons_nth_drop_Suc)

lemma send_at_error:
  assumes "c_string cmd = Some s" and "rx_next u = RxError"
  shows "send_at cmd resp_buf buf_size ticks u =
    Some (ESP_FAIL, resp_buf,
          u\<lparr>rx_fifo := [], rx_script := tl (rx_script u),
            events := events u @ [EvFlush, EvWrite s, EvWrite CRLF, EvRead (unat (buf_size - 1)) ticks]\<rparr>)"
  using assms
  by (simp add: send_at_def strlen_c_string c_string_take uart_flush_def uart_write_bytes_def
      uart_read_bytes_def rx_next_def CRLF_def)

lemma send_at_data:
  assumes cmd: "c_string cmd = Some s" and rx: "rx_next u = RxBytes d"
    and sz: "1 \<le> unat buf_size" "unat buf_size \<le> length resp_buf"
  shows "send_at cmd resp_buf buf_size ticks u =
    Some (ESP_OK,
          take (unat buf_size - 1) d @ NUL # drop (Suc (min (length d) (unat buf_size - 1))) resp_buf,
          u\<lparr>rx_fifo := drop (unat buf_size - 1) d, rx_script := tl (rx_script u),
            events := events u @ [EvFlush, EvWrite s, EvWrite CRLF, EvRead (unat buf_size - 1) ticks]\<rparr>)"
proof -
  from sz(1) have n: "unat (buf_size - 1) = unat buf_size - 1"
    by (metis unat_minus_one unat_0 not_one_le_zero)
  let ?data = "take (unat buf_size - 1) d"
  have k: "length ?data < length resp_buf" using sz by simp
  have st: "(?data @ drop (length ?data) resp_buf)[length ?data := NUL] =
            ?data @ NUL # drop (Suc (length ?data)) resp_buf"
    by (rule store_terminator [OF k refl])
  have le: "min (length d) (unat buf_size - Suc 0) \<le> length resp_buf" using sz by simp
  show ?thesis
    using cmd rx k st le
    by (simp add: send_at_def strlen_c_string c_string_take uart_flush_def uart_write_bytes_def
        uart_read_bytes_def rx_next_def CRLF_def n Let_def)
qed

lemma send_at_Some_cases:
  assumes "send_at cmd resp_buf buf_size ticks u = Some (st, buf, u')"
  shows "\<exists>s. c_string cmd = Some s
     \<and> events u' = events u @ [EvFlush, EvWrite s, EvWrite CRLF, EvRead (unat (buf_size - 1)) ticks]
     \<and> (st = ESP_FAIL \<longleftrightarrow> rx_next u = RxError)
     \<and> (st = ESP_OK \<longleftrightarrow> rx_next u \<noteq> RxError)"
proof -
  from assms obtain s where s: "c_string cmd = Some s"
    by (auto simp: send_at_def strlen_def Let_def split: option.splits)
  show ?thesis
  proof (cases "rx_next u")
    case RxError
    from send_at_error [OF s RxError, of resp_buf buf_size ticks] assms s RxError
    show ?thesis by auto
  next
    case (RxBytes d)
    with assms s show ?thesis
      by (auto simp: send_at_def strlen_c_string c_string_take uart_flush_def
          uart_write_bytes_def uart_read_bytes_def rx_next_def CRLF_def Let_def
          split: if_splits)
  qed
qed

lemma send_at_total:
  assumes cmd: "c_string cmd = Some s"
    and sz: "1 \<le> unat buf_size" "unat buf_size \<le> length resp_buf"
  shows "\<exists>buf u'. send_at cmd resp_buf buf_size ticks u =
           Some (if rx_next u = RxError then ESP_FAIL else ESP_OK, buf, u')"
proof (cases "rx_next u")
  case RxError
  from send_at_error [OF cmd RxError, of resp_buf buf_size ticks] RxError show ?thesis by simp
next
  case (RxBytes d)
  from send_at_data [OF cmd RxBytes sz, of ticks] RxBytes show ?thesis by simp
qed

lemma send_at_fifo:
  "send_at cmd resp_buf buf_size ticks (u\<lparr>rx_fifo := stale\<rparr>) = send_at cmd resp_buf buf_size ticks u"
  by (simp add: send_at_def uart_flush_def uart_write_bytes_def uart_read_bytes_def rx_next_def
      Let_def)

lemmas send_at_eval = send_at_def strlen_def c_string_def lit_def NUL_def uart_flush_def
  uart_write_bytes_def uart_read_bytes_def rx_next_def CRLF_def Let_def

text \<open>
  Claim C3. Whenever \<open>send_at\<close> returns, its status is \<open>ESP_FAIL\<close> exactly when the read
  of the reply failed, and \<open>ESP_OK\<close> otherwise, whatever bytes arrived and however many,
  none included. It does return for every terminated command and every buffer with
  room for \<open>buf_size\<close> bytes, \<open>buf_size\<close> at least 1. The read fails exactly when
  \<open>uart_read_bytes\<close> returns a negative count.
\<close>

theorem send_at_status:
  "(\<forall>st buf u'. send_at cmd resp_buf buf_size ticks u = Some (st, buf, u') \<longrightarrow>
      (st = ESP_FAIL \<longleftrightarrow> rx_next u = RxError) \<and> (st = ESP_OK \<longleftrightarrow> rx_next u \<noteq> RxError))
   \<and> (NUL \<in> set cmd \<and> 1 \<le> unat buf_size \<and> unat buf_size \<le> length resp_buf \<longrightarrow>
      (\<exists>buf u'. send_at cmd resp_buf buf_size ticks u =
         Some (if rx_next u = RxError then ESP_FAIL else ESP_OK, buf, u')))
   \<and> (\<forall>v b n t len b' v'. uart_read_bytes v b n t = Some (len, b', v') \<longrightarrow>
      (len < 0 \<longleftrightarrow> rx_next v = RxError))"
proof -
  have a: "(st = ESP_FAIL \<longleftrightarrow> rx_next u = RxError) \<and> (st = ESP_OK \<longleftrightarrow> rx_next u \<noteq> RxError)"
    if "send_at cmd resp_buf buf_size ticks u = Some (st, buf, u')" for st buf u'
    using send_at_Some_cases [OF that] by blast
  have b: "\<exists>buf u'. send_at cmd resp_buf buf_size ticks u =
         Some (if rx_next u = RxError then ESP_FAIL else ESP_OK, buf, u')"
    if h: "NUL \<in> set cmd \<and> 1 \<le> unat buf_size \<and> unat buf_size \<le> length resp_buf"
  proof -
    from h obtain s where "c_string cmd = Some s" using c_string_Some_iff by blast
    from send_at_total [OF this] h show ?thesis by blast
  qed
  have c: "len < 0 \<longleftrightarrow> rx_next v = RxError"
    if "uart_read_bytes v b n t = Some (len, b', v')" for v b n t len b' v'
    using that
    by (auto simp: uart_read_bytes_def Let_def split: rx_result.splits if_splits)
  from a b c show ?thesis by blast
qed

text \<open>
  The theorem at a read that times out with no byte (the status is \<open>ESP_OK\<close>, the
  buffer holds the empty string) and at a read that fails (\<open>ESP_FAIL\<close>).
\<close>

theorem send_at_status_witness:
  "send_at (lit ''AT'') ''xxxxxxxx'' 8 50 \<lparr>rx_fifo = ''junk'', rx_script = [RxBytes []], events = []\<rparr>
     = Some (ESP_OK, NUL # ''xxxxxxx'',
             \<lparr>rx_fifo = [], rx_script = [], events = [EvFlush, EvWrite ''AT'', EvWrite CRLF, EvRead 7 50]\<rparr>)
   \<and> rx_next \<lparr>rx_fifo = ''junk'', rx_script = [RxBytes []], events = []\<rparr> \<noteq> RxError
   \<and> send_at (lit ''AT'') ''xxxxxxxx'' 8 50 \<lparr>rx_fifo = ''junk'', rx_script = [RxError], events = []\<rparr>
     = Some (ESP_FAIL, ''xxxxxxxx'',
             \<lparr>rx_fifo = [], rx_script = [], events = [EvFlush, EvWrite ''AT'', EvWrite CRLF, EvRead 7 50]\<rparr>)
   \<and> rx_next \<lparr>rx_fifo = ''junk'', rx_script = [RxError], events = []\<rparr> = RxError
   \<and> uart_read_bytes \<lparr>rx_fifo = [], rx_script = [RxError], events = []\<rparr> ''xxxxxxxx'' 7 50
     = Some (- 1, ''xxxxxxxx'', \<lparr>rx_fifo = [], rx_script = [], events = [EvRead 7 50]\<rparr>)
   \<and> NUL \<in> set (lit ''AT'') \<and> 1 \<le> unat (8 :: 32 word) \<and> unat (8 :: 32 word) \<le> length ''xxxxxxxx''"
  using send_at_status [of "lit ''AT''" "''xxxxxxxx''" 8 50
      "\<lparr>rx_fifo = ''junk'', rx_script = [RxBytes []], events = []\<rparr>"]
    send_at_status [of "lit ''AT''" "''xxxxxxxx''" 8 50
      "\<lparr>rx_fifo = ''junk'', rx_script = [RxError], events = []\<rparr>"]
  by (simp add: send_at_eval)

text \<open>
  Claim C7. With a capacity \<open>buf_size\<close> of at least 1 that the buffer has, and a read
  that does not fail, \<open>send_at\<close> stores the \<open>k\<close> bytes received, \<open>k\<close> at most
  \<open>buf_size - 1\<close>, at the start of the buffer and a NUL at index \<open>k\<close>. The bytes after
  index \<open>k\<close> and the length of the buffer are unchanged, so nothing is written out of
  bounds, and the buffer holds a terminated string.
\<close>

theorem send_at_terminated:
  assumes cmd: "c_string cmd = Some s"
    and sz: "1 \<le> unat buf_size" "unat buf_size \<le> length resp_buf"
    and rx: "rx_next u = RxBytes d"
  shows "\<exists>buf u' k. send_at cmd resp_buf buf_size ticks u = Some (ESP_OK, buf, u')
     \<and> k = min (length d) (unat buf_size - 1)
     \<and> k \<le> unat buf_size - 1 \<and> k < length resp_buf
     \<and> length buf = length resp_buf
     \<and> take k buf = take k d
     \<and> buf ! k = NUL
     \<and> drop (Suc k) buf = drop (Suc k) resp_buf
     \<and> c_string buf = Some (takeWhile (\<lambda>c. c \<noteq> NUL) (take k d))"
proof -
  let ?k = "min (length d) (unat buf_size - 1)"
  let ?buf = "take (unat buf_size - 1) d @ NUL # drop (Suc ?k) resp_buf"
  have lk: "length (take (unat buf_size - 1) d) = ?k" by simp
  have tk: "take (unat buf_size - 1) d = take ?k d" by (simp add: min_def)
  have k: "?k \<le> unat buf_size - 1" "?k < length resp_buf" using sz by simp_all
  have 1: "length ?buf = length resp_buf" using k by simp
  have 2: "take ?k ?buf = take ?k d" using lk by (simp add: tk)
  have 3: "?buf ! ?k = NUL" using lk by (metis nth_append_length)
  have 4: "drop (Suc ?k) ?buf = drop (Suc ?k) resp_buf"
    by simp
  have 5: "c_string ?buf = Some (takeWhile (\<lambda>c. c \<noteq> NUL) (take ?k d))"
    by (simp only: c_string_data tk)
  from send_at_data [OF cmd rx sz, of ticks] k 1 2 3 4 5 show ?thesis by blast
qed

text \<open>
  The theorem at a capacity of 4 and a reply of 8 bytes: three bytes are stored, the
  NUL is at index 3, and the other five bytes stay in the receive buffer.
\<close>

theorem send_at_terminated_witness:
  "c_string (lit ''AT'') = Some ''AT''
   \<and> 1 \<le> unat (4 :: 32 word) \<and> unat (4 :: 32 word) \<le> length ''xxxxxxxx''
   \<and> rx_next \<lparr>rx_fifo = ''junk'', rx_script = [RxBytes ''OK 12345''], events = []\<rparr>
        = RxBytes ''OK 12345''
   \<and> send_at (lit ''AT'') ''xxxxxxxx'' 4 50
         \<lparr>rx_fifo = ''junk'', rx_script = [RxBytes ''OK 12345''], events = []\<rparr>
       = Some (ESP_OK, ''OK '' @ NUL # ''xxxx'',
               \<lparr>rx_fifo = ''12345'', rx_script = [],
                  events = [EvFlush, EvWrite ''AT'', EvWrite CRLF, EvRead 3 50]\<rparr>)
   \<and> c_string (''OK '' @ NUL # ''xxxx'') = Some ''OK ''"
proof -
  have a: "c_string (lit ''AT'') = Some ''AT''" by (simp add: c_string_def lit_def NUL_def)
  have b: "1 \<le> unat (4 :: 32 word)" "unat (4 :: 32 word) \<le> length ''xxxxxxxx''" by simp_all
  have c: "rx_next \<lparr>rx_fifo = ''junk'', rx_script = [RxBytes ''OK 12345''], events = []\<rparr>
        = RxBytes ''OK 12345''" by (simp add: rx_next_def)
  from send_at_terminated [OF a b c, of 50] a b c show ?thesis
    by (simp add: send_at_eval)
qed

text \<open>
  Claim C8. The driver calls of one \<open>send_at\<close> are, in this order, the flush of the
  pending input, the write of the command line, the write of the line terminator, and
  the read of the reply. What was pending before the call has no influence on its
  result.
\<close>

theorem send_at_order:
  "(\<forall>st buf u'. send_at cmd resp_buf buf_size ticks u = Some (st, buf, u') \<longrightarrow>
      (\<exists>s. c_string cmd = Some s
         \<and> events u' = events u @
             [EvFlush, EvWrite s, EvWrite CRLF, EvRead (unat (buf_size - 1)) ticks]
         \<and> send_at cmd resp_buf buf_size ticks (u\<lparr>rx_fifo := stale\<rparr>) = Some (st, buf, u')))
   \<and> (NUL \<in> set cmd \<and> 1 \<le> unat buf_size \<and> unat buf_size \<le> length resp_buf \<longrightarrow>
        send_at cmd resp_buf buf_size ticks u \<noteq> None)"
proof -
  have a: "\<exists>s. c_string cmd = Some s
         \<and> events u' = events u @
             [EvFlush, EvWrite s, EvWrite CRLF, EvRead (unat (buf_size - 1)) ticks]
         \<and> send_at cmd resp_buf buf_size ticks (u\<lparr>rx_fifo := stale\<rparr>) = Some (st, buf, u')"
    if "send_at cmd resp_buf buf_size ticks u = Some (st, buf, u')" for st buf u'
    using send_at_Some_cases [OF that] that by (auto simp: send_at_fifo)
  have b: "send_at cmd resp_buf buf_size ticks u \<noteq> None"
    if h: "NUL \<in> set cmd \<and> 1 \<le> unat buf_size \<and> unat buf_size \<le> length resp_buf"
  proof -
    from h obtain s where "c_string cmd = Some s" using c_string_Some_iff by blast
    from send_at_total [OF this, of buf_size resp_buf ticks u] h show ?thesis by auto
  qed
  from a b show ?thesis by blast
qed

text \<open>
  The theorem at one command: the four driver calls in order, and the same result with
  other bytes pending.
\<close>

theorem send_at_order_witness:
  "send_at (lit ''AT+CGATT?'') ''xxxxxxxx'' 8 50
       \<lparr>rx_fifo = ''junk'', rx_script = [RxBytes ''OK''], events = []\<rparr>
     = Some (ESP_OK, ''OK'' @ NUL # ''xxxxx'',
             \<lparr>rx_fifo = [], rx_script = [],
                events = [EvFlush, EvWrite ''AT+CGATT?'', EvWrite CRLF, EvRead 7 50]\<rparr>)
   \<and> send_at (lit ''AT+CGATT?'') ''xxxxxxxx'' 8 50
       (\<lparr>rx_fifo = ''junk'', rx_script = [RxBytes ''OK''], events = []\<rparr>\<lparr>rx_fifo := ''other''\<rparr>)
     = Some (ESP_OK, ''OK'' @ NUL # ''xxxxx'',
             \<lparr>rx_fifo = [], rx_script = [],
                events = [EvFlush, EvWrite ''AT+CGATT?'', EvWrite CRLF, EvRead 7 50]\<rparr>)
   \<and> NUL \<in> set (lit ''AT+CGATT?'') \<and> 1 \<le> unat (8 :: 32 word)
   \<and> unat (8 :: 32 word) \<le> length ''xxxxxxxx''"
  using send_at_order [of "lit ''AT+CGATT?''" "''xxxxxxxx''" 8 50
      "\<lparr>rx_fifo = ''junk'', rx_script = [RxBytes ''OK''], events = []\<rparr>" "''other''"]
  by (simp add: send_at_eval)



section \<open>The command sequence: claims C4, C5, C6 and C9\<close>

text \<open>
  The array \<^verbatim>\<open>resp\<close> has \<open>UART_BUF_SIZE\<close> bytes. When it holds no NUL on entry and each
  of the first eleven reads fails, it holds no string when \<open>parse_http_length\<close> is
  called, and \<open>parse_http_length\<close> reads past its end: C defines nothing from there on
  (\<open>None\<close>). In every other run \<open>parse_http_length\<close> returns a length.
\<close>

lemma unat_buf_size: "unat (of_nat UART_BUF_SIZE :: 32 word) = UART_BUF_SIZE"
  by (simp add: UART_BUF_SIZE_def)

lemma rx_next_error: "rx_next u = RxError \<Longrightarrow> \<exists>rest. rx_script u = RxError # rest"
  by (auto simp: rx_next_def split: list.splits)

lemma rx_next_nth: "rx_script v = drop n xs \<Longrightarrow> n < length xs \<Longrightarrow> rx_next v = xs ! n"
  by (simp add: rx_next_def Cons_nth_drop_Suc [symmetric])

lemma send_at_resp:
  assumes line: "NUL \<notin> set line" and len: "length resp = UART_BUF_SIZE"
  shows "\<exists>st r' u'. send_at (lit line) resp (of_nat UART_BUF_SIZE) ticks u = Some (st, r', u')
     \<and> length r' = UART_BUF_SIZE
     \<and> events u' = events u @ at_exchange (line, ticks)
     \<and> rx_script u' = tl (rx_script u)
     \<and> (rx_next u = RxError \<longrightarrow> r' = resp)
     \<and> (\<forall>d. rx_next u = RxBytes d \<longrightarrow>
           c_string r' = Some (takeWhile (\<lambda>c. c \<noteq> NUL) (take (UART_BUF_SIZE - 1) d)))"
proof (cases "rx_next u")
  case RxError
  from send_at_error [OF c_string_lit [OF line] RxError, of resp "of_nat UART_BUF_SIZE" ticks]
  show ?thesis using RxError
    by (simp add: at_exchange_def unat_buf_size len unat_minus_one UART_BUF_SIZE_def)
next
  case (RxBytes d)
  have sz: "1 \<le> unat (of_nat UART_BUF_SIZE :: 32 word)"
    "unat (of_nat UART_BUF_SIZE :: 32 word) \<le> length resp"
    by (simp_all add: unat_buf_size len) (simp add: UART_BUF_SIZE_def)
  from send_at_data [OF c_string_lit [OF line] RxBytes sz, of ticks]
  show ?thesis using RxBytes len
    by (simp add: at_exchange_def unat_buf_size c_string_data) (simp add: UART_BUF_SIZE_def)
qed

lemma send_all_append:
  "send_all (cs @ ds) resp u =
     (case send_all cs resp u of None \<Rightarrow> None | Some (r, v) \<Rightarrow> send_all ds r v)"
  by (induction cs resp u rule: send_all.induct) (auto split: option.splits)

lemma send_all_resp:
  assumes "\<forall>c \<in> set cs. NUL \<notin> set (fst c)" and "length resp = UART_BUF_SIZE"
  shows "\<exists>r' u'. send_all cs resp u = Some (r', u')
     \<and> length r' = UART_BUF_SIZE
     \<and> events u' = events u @ concat (map at_exchange cs)
     \<and> rx_script u' = drop (length cs) (rx_script u)
     \<and> (NUL \<in> set resp \<or> take (length cs) (rx_script u) \<noteq> replicate (length cs) RxError
          \<longrightarrow> NUL \<in> set r')"
  using assms
proof (induction cs arbitrary: resp u)
  case Nil
  then show ?case by simp
next
  case (Cons c cs)
  obtain line ticks where c: "c = (line, ticks)" by (cases c)
  from Cons.prems c have line: "NUL \<notin> set line" by simp
  from send_at_resp [OF line Cons.prems(2), of ticks u] obtain st r1 u1 where
    s1: "send_at (lit line) resp (of_nat UART_BUF_SIZE) ticks u = Some (st, r1, u1)"
    and l1: "length r1 = UART_BUF_SIZE"
    and e1: "events u1 = events u @ at_exchange (line, ticks)"
    and x1: "rx_script u1 = tl (rx_script u)"
    and b1: "rx_next u = RxError \<longrightarrow> r1 = resp"
    and d1: "\<forall>d. rx_next u = RxBytes d \<longrightarrow>
           c_string r1 = Some (takeWhile (\<lambda>c. c \<noteq> NUL) (take (UART_BUF_SIZE - 1) d))"
    by blast
  from Cons.prems have rest: "\<forall>c \<in> set cs. NUL \<notin> set (fst c)" by simp
  from Cons.IH [OF rest l1, of u1] obtain r' u' where
    s2: "send_all cs r1 u1 = Some (r', u')"
    and l2: "length r' = UART_BUF_SIZE"
    and e2: "events u' = events u1 @ concat (map at_exchange cs)"
    and x2: "rx_script u' = drop (length cs) (rx_script u1)"
    and n2: "NUL \<in> set r1 \<or> take (length cs) (rx_script u1) \<noteq> replicate (length cs) RxError
          \<longrightarrow> NUL \<in> set r'"
    by blast
  have n: "NUL \<in> set resp \<or> take (length (c # cs)) (rx_script u) \<noteq> replicate (length (c # cs)) RxError
          \<longrightarrow> NUL \<in> set r'"
  proof (cases "rx_next u")
    case RxError
    with b1 have r1: "r1 = resp" by simp
    from rx_next_error [OF RxError] obtain rest where "rx_script u = RxError # rest" by blast
    with x1 r1 n2 show ?thesis by simp
  next
    case (RxBytes d)
    with d1 have "\<exists>s. c_string r1 = Some s" by simp
    then have "NUL \<in> set r1" by (simp only: c_string_Some_iff)
    with n2 show ?thesis by simp
  qed
  from s1 s2 l2 e1 e2 x1 x2 n c show ?case
    by (simp add: drop_Suc)
qed

lemma send_all_snoc:
  assumes wf: "\<forall>c \<in> set cs. NUL \<notin> set (fst c)" "NUL \<notin> set line"
    and len: "length resp = UART_BUF_SIZE"
    and n: "length cs < length (rx_script u)"
  shows "\<exists>r v st r' v'. send_all cs resp u = Some (r, v)
     \<and> length r = UART_BUF_SIZE
     \<and> rx_next v = rx_script u ! length cs
     \<and> events v = events u @ concat (map at_exchange cs)
     \<and> send_at (lit line) r (of_nat UART_BUF_SIZE) ticks v = Some (st, r', v')
     \<and> send_all (cs @ [(line, ticks)]) resp u = Some (r', v')
     \<and> (rx_script u ! length cs = RxError \<longrightarrow> st = ESP_FAIL \<and> r' = r)
     \<and> (\<forall>d. rx_script u ! length cs = RxBytes d \<longrightarrow>
           c_string r' = Some (takeWhile (\<lambda>c. c \<noteq> NUL) (take (UART_BUF_SIZE - 1) d)))"
proof -
  from send_all_resp [OF wf(1) len, of u] obtain r v where
    a: "send_all cs resp u = Some (r, v)" and lr: "length r = UART_BUF_SIZE"
    and ev: "events v = events u @ concat (map at_exchange cs)"
    and sc: "rx_script v = drop (length cs) (rx_script u)"
    by blast
  from rx_next_nth [OF sc n] have nx: "rx_next v = rx_script u ! length cs" .
  from send_at_resp [OF wf(2) lr, of ticks v] obtain st r' v' where
    b: "send_at (lit line) r (of_nat UART_BUF_SIZE) ticks v = Some (st, r', v')"
    and keep: "rx_next v = RxError \<longrightarrow> r' = r"
    and data: "\<forall>d. rx_next v = RxBytes d \<longrightarrow>
           c_string r' = Some (takeWhile (\<lambda>c. c \<noteq> NUL) (take (UART_BUF_SIZE - 1) d))"
    by blast
  from send_at_Some_cases [OF b] have st: "st = ESP_FAIL \<longleftrightarrow> rx_next v = RxError" by blast
  have c: "send_all (cs @ [(line, ticks)]) resp u = Some (r', v')"
    using a b by (simp add: send_all_append)
  from a lr nx ev b c keep data st show ?thesis by auto
qed

lemma send_all_errors_keep:
  assumes "\<forall>c \<in> set cs. NUL \<notin> set (fst c)" and "length resp = UART_BUF_SIZE"
    and "take (length cs) (rx_script u) = replicate (length cs) RxError"
  shows "\<exists>v. send_all cs resp u = Some (resp, v)"
  using assms
proof (induction cs arbitrary: u)
  case Nil
  then show ?case by simp
next
  case (Cons c cs)
  obtain line ticks where c: "c = (line, ticks)" by (cases c)
  from Cons.prems(3) obtain rest where sc: "rx_script u = RxError # rest"
    and rest: "take (length cs) rest = replicate (length cs) RxError"
    by (cases "rx_script u") auto
  then have nx: "rx_next u = RxError" by (simp add: rx_next_def)
  from Cons.prems c have line: "NUL \<notin> set line" by simp
  from send_at_resp [OF line Cons.prems(2), of ticks u] nx obtain st u1 where
    s1: "send_at (lit line) resp (of_nat UART_BUF_SIZE) ticks u = Some (st, resp, u1)"
    and x1: "rx_script u1 = tl (rx_script u)"
    by auto
  from Cons.prems have wf: "\<forall>c \<in> set cs. NUL \<notin> set (fst c)" by simp
  from x1 sc rest have "take (length cs) (rx_script u1) = replicate (length cs) RxError" by simp
  from Cons.IH [OF wf Cons.prems(2) this] obtain v where "send_all cs resp u1 = Some (resp, v)"
    by blast
  with s1 c show ?case by simp
qed

lemma send_all_last_reply:
  assumes wf: "\<forall>c \<in> set cs. NUL \<notin> set (fst c)" and len: "length resp = UART_BUF_SIZE"
    and j: "j < length cs" and n: "length cs \<le> length (rx_script u)"
    and d: "rx_script u ! j = RxBytes d"
    and errs: "\<forall>i. j < i \<and> i < length cs \<longrightarrow> rx_script u ! i = RxError"
  shows "\<exists>r v. send_all cs resp u = Some (r, v)
     \<and> c_string r = Some (takeWhile (\<lambda>c. c \<noteq> NUL) (take (UART_BUF_SIZE - 1) d))"
proof -
  let ?a = "take j cs" and ?b = "drop (Suc j) cs"
  obtain line ticks where c: "cs ! j = (line, ticks)" by (cases "cs ! j")
  from j have split: "cs = (?a @ [(line, ticks)]) @ ?b"
    using id_take_nth_drop [of j cs] c by simp
  from wf have wa: "\<forall>c \<in> set ?a. NUL \<notin> set (fst c)" by (meson in_set_takeD)
  from wf have wb: "\<forall>c \<in> set ?b. NUL \<notin> set (fst c)" by (meson in_set_dropD)
  from wf j c have wl: "NUL \<notin> set line" by (metis fst_conv nth_mem)
  have la: "length ?a = j" using j by simp
  from j n have ja: "length ?a < length (rx_script u)" by simp
  from send_all_snoc [OF wa wl len ja, of ticks] d la obtain r1 v1 where
    s1: "send_all (?a @ [(line, ticks)]) resp u = Some (r1, v1)"
    and c1: "c_string r1 = Some (takeWhile (\<lambda>c. c \<noteq> NUL) (take (UART_BUF_SIZE - 1) d))"
    by auto
  have wa1: "\<forall>c \<in> set (?a @ [(line, ticks)]). NUL \<notin> set (fst c)" using wa wl by simp
  from send_all_resp [OF wa1 len, of u] s1 la have l1: "length r1 = UART_BUF_SIZE"
    and x1: "rx_script v1 = drop (Suc j) (rx_script u)"
    by auto
  have "take (length ?b) (rx_script v1) = replicate (length ?b) RxError"
  proof (rule nth_equalityI)
    show "length (take (length ?b) (rx_script v1)) = length (replicate (length ?b) RxError)"
      using x1 n by simp
  next
    fix i assume "i < length (take (length ?b) (rx_script v1))"
    then have i: "i < length cs - Suc j" by simp
    then have "take (length ?b) (rx_script v1) ! i = rx_script u ! (Suc j + i)"
      using x1 n by simp
    also have "\<dots> = RxError" using errs i by simp
    finally show "take (length ?b) (rx_script v1) ! i = replicate (length ?b) RxError ! i"
      using i by simp
  qed
  from send_all_errors_keep [OF wb l1 this] obtain v where "send_all ?b r1 v1 = Some (r1, v)"
    by blast
  with s1 have "send_all ((?a @ [(line, ticks)]) @ ?b) resp u = Some (r1, v)"
    by (simp only: send_all_append [of "?a @ [(line, ticks)]" ?b] option.case prod.case)
  with split c1 show ?thesis by metis
qed

lemma cmds_no_NUL:
  "\<forall>c \<in> set (http_action_cmds pdMS_TO_TICKS). NUL \<notin> set (fst c)"
  "\<forall>c \<in> set (teardown_cmds pdMS_TO_TICKS). NUL \<notin> set (fst c)"
  by (simp_all add: http_action_cmds_def teardown_cmds_def NUL_def)

lemma take_cmds_no_NUL: "\<forall>c \<in> set (take n (http_action_cmds pdMS_TO_TICKS)). NUL \<notin> set (fst c)"
  using cmds_no_NUL(1) [of pdMS_TO_TICKS] by (meson in_set_takeD)

lemma http_action_cmds_split:
  "take 10 (http_action_cmds pdMS_TO_TICKS) @ [(''AT+HTTPACTION=0'', pdMS_TO_TICKS 10000)] =
     http_action_cmds pdMS_TO_TICKS"
  "length (take 10 (http_action_cmds pdMS_TO_TICKS)) = 10"
  by (simp_all add: http_action_cmds_def)

lemma sim_http_get_sample_unfold:
  "sim_http_get_sample pdMS_TO_TICKS resp0 u0 =
     (case send_all (http_action_cmds pdMS_TO_TICKS) resp0 u0 of
        None \<Rightarrow> None
      | Some (r, u) \<Rightarrow>
          (case parse_http_length r of
             None \<Rightarrow> None
           | Some len \<Rightarrow>
               map_option snd
                 (send_all ((if 0 < len
                             then [(take 31 (''AT+HTTPREAD=0,'' @ fmt_d len), pdMS_TO_TICKS 10000)]
                             else []) @ teardown_cmds pdMS_TO_TICKS) r u)))"
  by (simp add: sim_http_get_sample_def http_action_cmds_def teardown_cmds_def snprintf_lit
      split: option.splits prod.splits Option.bind_splits)

lemma sim_http_get_sample_trace:
  assumes len0: "length resp0 = UART_BUF_SIZE"
    and str: "NUL \<in> set resp0 \<or> take 11 (rx_script u0) \<noteq> replicate 11 RxError"
  shows "\<exists>r u len u'.
      send_all (http_action_cmds pdMS_TO_TICKS) resp0 u0 = Some (r, u)
    \<and> parse_http_length r = Some len
    \<and> sim_http_get_sample pdMS_TO_TICKS resp0 u0 = Some u'
    \<and> events u' = events u0 @ concat (map at_exchange
         (http_action_cmds pdMS_TO_TICKS
          @ (if 0 < len then [(''AT+HTTPREAD=0,'' @ fmt_d len, pdMS_TO_TICKS 10000)] else [])
          @ teardown_cmds pdMS_TO_TICKS))"
proof -
  have n11: "length (http_action_cmds pdMS_TO_TICKS) = 11" by (simp add: http_action_cmds_def)
  from send_all_resp [OF cmds_no_NUL(1) len0, of pdMS_TO_TICKS u0] str n11 obtain r u where
    a: "send_all (http_action_cmds pdMS_TO_TICKS) resp0 u0 = Some (r, u)"
    and lr: "length r = UART_BUF_SIZE"
    and ev: "events u = events u0 @ concat (map at_exchange (http_action_cmds pdMS_TO_TICKS))"
    and nul: "NUL \<in> set r"
    by auto
  from nul obtain len where p: "parse_http_length r = Some len"
    using parse_http_length_Some_iff by blast
  from parse_http_length_range [OF p] have rng: "INT_MIN \<le> len" "len \<le> INT_MAX" by simp_all
  let ?rest = "(if 0 < len then [(''AT+HTTPREAD=0,'' @ fmt_d len, pdMS_TO_TICKS 10000)] else [])
          @ teardown_cmds pdMS_TO_TICKS"
  have "\<forall>c \<in> set ?rest. NUL \<notin> set (fst c)"
    using cmds_no_NUL(2) [of pdMS_TO_TICKS] read_cmd_no_NUL [of len] by auto
  from send_all_resp [OF this lr, of u] obtain r' u' where
    b: "send_all ?rest r u = Some (r', u')"
    and ev': "events u' = events u @ concat (map at_exchange ?rest)"
    by blast
  have "sim_http_get_sample pdMS_TO_TICKS resp0 u0 =
      (case parse_http_length r of None \<Rightarrow> None
       | Some len \<Rightarrow> map_option snd
           (send_all ((if 0 < len
                       then [(take 31 (''AT+HTTPREAD=0,'' @ fmt_d len), pdMS_TO_TICKS 10000)]
                       else []) @ teardown_cmds pdMS_TO_TICKS) r u))"
    unfolding sim_http_get_sample_unfold a by (simp only: option.case prod.case)
  also have "\<dots> = map_option snd (send_all ?rest r u)"
    unfolding p by (simp only: option.case read_cmd_fits [OF rng])
  finally have "sim_http_get_sample pdMS_TO_TICKS resp0 u0 = map_option snd (send_all ?rest r u)" .
  with b have "sim_http_get_sample pdMS_TO_TICKS resp0 u0 = Some u'" by simp
  with a p ev ev' show ?thesis by simp
qed

lemma sim_http_get_sample_run:
  assumes len0: "length resp0 = UART_BUF_SIZE"
  shows "\<exists>r u.
      send_all (http_action_cmds pdMS_TO_TICKS) resp0 u0 = Some (r, u)
    \<and> events u = events u0 @ concat (map at_exchange (http_action_cmds pdMS_TO_TICKS))
    \<and> (NUL \<in> set resp0 \<or> take 11 (rx_script u0) \<noteq> replicate 11 RxError \<longrightarrow> NUL \<in> set r)
    \<and> (parse_http_length r = None \<longrightarrow> sim_http_get_sample pdMS_TO_TICKS resp0 u0 = None)
    \<and> (\<forall>len. parse_http_length r = Some len \<longrightarrow>
          (\<exists>u'. sim_http_get_sample pdMS_TO_TICKS resp0 u0 = Some u'
             \<and> events u' = events u0 @ concat (map at_exchange
                 (http_action_cmds pdMS_TO_TICKS
                  @ (if 0 < len then [(''AT+HTTPREAD=0,'' @ fmt_d len, pdMS_TO_TICKS 10000)] else [])
                  @ teardown_cmds pdMS_TO_TICKS))))"
proof -
  have n11: "length (http_action_cmds pdMS_TO_TICKS) = 11" by (simp add: http_action_cmds_def)
  from send_all_resp [OF cmds_no_NUL(1) len0, of pdMS_TO_TICKS u0] n11 obtain r u where
    a: "send_all (http_action_cmds pdMS_TO_TICKS) resp0 u0 = Some (r, u)"
    and lr: "length r = UART_BUF_SIZE"
    and ev: "events u = events u0 @ concat (map at_exchange (http_action_cmds pdMS_TO_TICKS))"
    and nul: "NUL \<in> set resp0 \<or> take 11 (rx_script u0) \<noteq> replicate 11 RxError \<longrightarrow> NUL \<in> set r"
    by auto
  have base: "sim_http_get_sample pdMS_TO_TICKS resp0 u0 =
      (case parse_http_length r of None \<Rightarrow> None
       | Some len \<Rightarrow> map_option snd
           (send_all ((if 0 < len
                       then [(take 31 (''AT+HTTPREAD=0,'' @ fmt_d len), pdMS_TO_TICKS 10000)]
                       else []) @ teardown_cmds pdMS_TO_TICKS) r u))"
    unfolding sim_http_get_sample_unfold a by (simp only: option.case prod.case)
  have none: "parse_http_length r = None \<longrightarrow> sim_http_get_sample pdMS_TO_TICKS resp0 u0 = None"
  proof
    assume p: "parse_http_length r = None"
    show "sim_http_get_sample pdMS_TO_TICKS resp0 u0 = None"
      unfolding base p by (simp only: option.case)
  qed
  have some: "\<exists>u'. sim_http_get_sample pdMS_TO_TICKS resp0 u0 = Some u'
             \<and> events u' = events u0 @ concat (map at_exchange
                 (http_action_cmds pdMS_TO_TICKS
                  @ (if 0 < len then [(''AT+HTTPREAD=0,'' @ fmt_d len, pdMS_TO_TICKS 10000)] else [])
                  @ teardown_cmds pdMS_TO_TICKS))"
    if p: "parse_http_length r = Some len" for len
  proof -
    from parse_http_length_range [OF p] have rng: "INT_MIN \<le> len" "len \<le> INT_MAX" by simp_all
    let ?rest = "(if 0 < len then [(''AT+HTTPREAD=0,'' @ fmt_d len, pdMS_TO_TICKS 10000)] else [])
          @ teardown_cmds pdMS_TO_TICKS"
    have "\<forall>c \<in> set ?rest. NUL \<notin> set (fst c)"
      using cmds_no_NUL(2) [of pdMS_TO_TICKS] read_cmd_no_NUL [of len] by auto
    from send_all_resp [OF this lr, of u] obtain r' u' where
      b: "send_all ?rest r u = Some (r', u')"
      and ev': "events u' = events u @ concat (map at_exchange ?rest)"
      by blast
    have "sim_http_get_sample pdMS_TO_TICKS resp0 u0 = map_option snd (send_all ?rest r u)"
      unfolding base p by (simp only: option.case read_cmd_fits [OF rng])
    with b have "sim_http_get_sample pdMS_TO_TICKS resp0 u0 = Some u'" by simp
    with ev ev' show ?thesis by simp
  qed
  have all: "\<forall>len. parse_http_length r = Some len \<longrightarrow>
          (\<exists>u'. sim_http_get_sample pdMS_TO_TICKS resp0 u0 = Some u'
             \<and> events u' = events u0 @ concat (map at_exchange
                 (http_action_cmds pdMS_TO_TICKS
                  @ (if 0 < len then [(''AT+HTTPREAD=0,'' @ fmt_d len, pdMS_TO_TICKS 10000)] else [])
                  @ teardown_cmds pdMS_TO_TICKS)))"
    by (intro allI impI) (rule some)
  show ?thesis
    by (rule exI [of _ r], rule exI [of _ u]) (intro conjI a ev nul none all)
qed

lemma http_action_reply:
  assumes "length resp0 = UART_BUF_SIZE" and "10 < length (rx_script u0)"
    and "rx_script u0 ! 10 = RxBytes d"
  shows "\<exists>r u. send_all (http_action_cmds pdMS_TO_TICKS) resp0 u0 = Some (r, u)
     \<and> c_string r = Some (takeWhile (\<lambda>c. c \<noteq> NUL) (take (UART_BUF_SIZE - 1) d))"
proof -
  have nul: "NUL \<notin> set ''AT+HTTPACTION=0''" by (simp add: NUL_def)
  from assms(2) have n: "length (take 10 (http_action_cmds pdMS_TO_TICKS)) < length (rx_script u0)"
    by (simp add: http_action_cmds_split(2) del: length_take)
  from send_all_snoc [OF take_cmds_no_NUL nul assms(1) n, of "pdMS_TO_TICKS 10000"] assms(3)
  show ?thesis
    by (auto simp: http_action_cmds_split(1,2) simp del: length_take)
qed

text \<open>
  Claim C4. Let \<open>r\<close> be the buffer after the eleven commands up to
  \<^verbatim>\<open>AT+HTTPACTION=0\<close> and \<open>len\<close> the value \<open>parse_http_length\<close> returns for it. The driver
  calls of \<open>sim_http_get_sample\<close> are those of the eleven commands, then those of
  \<^verbatim>\<open>AT+HTTPREAD=0,<len>\<close> if and only if \<open>len\<close> is greater than 0, then those of the two
  commands of the tear-down: nothing else depends on a condition.
\<close>

theorem sim_http_get_sample_follow_up_read:
  assumes "length resp0 = UART_BUF_SIZE"
    and "NUL \<in> set resp0 \<or> take 11 (rx_script u0) \<noteq> replicate 11 RxError"
  shows "\<exists>r u len u'.
      send_all (http_action_cmds pdMS_TO_TICKS) resp0 u0 = Some (r, u)
    \<and> parse_http_length r = Some len
    \<and> sim_http_get_sample pdMS_TO_TICKS resp0 u0 = Some u'
    \<and> events u' = events u0 @ concat (map at_exchange (http_action_cmds pdMS_TO_TICKS))
         @ (if 0 < len
            then at_exchange (''AT+HTTPREAD=0,'' @ fmt_d len, pdMS_TO_TICKS 10000)
            else [])
         @ concat (map at_exchange (teardown_cmds pdMS_TO_TICKS))"
proof -
  from sim_http_get_sample_trace [OF assms, of pdMS_TO_TICKS] obtain r u len u' where
    "send_all (http_action_cmds pdMS_TO_TICKS) resp0 u0 = Some (r, u)"
    "parse_http_length r = Some len"
    "sim_http_get_sample pdMS_TO_TICKS resp0 u0 = Some u'"
    "events u' = events u0 @ concat (map at_exchange
         (http_action_cmds pdMS_TO_TICKS
          @ (if 0 < len then [(''AT+HTTPREAD=0,'' @ fmt_d len, pdMS_TO_TICKS 10000)] else [])
          @ teardown_cmds pdMS_TO_TICKS))"
    by blast
  then show ?thesis by (intro exI [of _ r] exI [of _ u] exI [of _ len] exI [of _ u']) simp
qed

text \<open>
  The theorem at a run where the reply to \<^verbatim>\<open>AT+HTTPACTION=0\<close> announces 17 bytes: the read
  command for 17 bytes is issued.
\<close>

theorem sim_http_get_sample_follow_up_read_witness:
  "length (replicate 1024 (CHR ''x'')) = UART_BUF_SIZE
   \<and> (NUL \<in> set (replicate 1024 (CHR ''x''))
       \<or> take 11 (rx_script \<lparr>rx_fifo = [], rx_script = [RxError, RxError, RxError, RxError,
             RxError, RxError, RxError, RxError, RxError, RxError,
             RxBytes ''+HTTPACTION: 0,200,17''], events = []\<rparr>) \<noteq> replicate 11 RxError)
   \<and> (\<exists>u'. sim_http_get_sample ms_to_ticks_100hz (replicate 1024 (CHR ''x''))
          \<lparr>rx_fifo = [], rx_script = [RxError, RxError, RxError, RxError,
             RxError, RxError, RxError, RxError, RxError, RxError,
             RxBytes ''+HTTPACTION: 0,200,17''], events = []\<rparr> = Some u'
        \<and> events u' = concat (map at_exchange (http_action_cmds ms_to_ticks_100hz))
             @ at_exchange (''AT+HTTPREAD=0,17'', ms_to_ticks_100hz 10000)
             @ concat (map at_exchange (teardown_cmds ms_to_ticks_100hz)))"
proof -
  let ?resp = "replicate 1024 (CHR ''x'')"
  let ?u = "\<lparr>rx_fifo = [], rx_script = [RxError, RxError, RxError, RxError,
             RxError, RxError, RxError, RxError, RxError, RxError,
             RxBytes ''+HTTPACTION: 0,200,17''], events = []\<rparr>"
  have a: "length ?resp = UART_BUF_SIZE" by (simp add: UART_BUF_SIZE_def)
  have b: "NUL \<in> set ?resp \<or> take 11 (rx_script ?u) \<noteq> replicate 11 RxError"
    by (simp add: eval_nat_numeral)
  from http_action_reply [OF a, of ?u "''+HTTPACTION: 0,200,17''" ms_to_ticks_100hz]
  obtain r u where r: "send_all (http_action_cmds ms_to_ticks_100hz) ?resp ?u = Some (r, u)"
    and s: "c_string r = Some ''+HTTPACTION: 0,200,17''"
    by (auto simp: UART_BUF_SIZE_def NUL_def)
  have p: "parse_http_length r = Some 17"
    by (simp add: parse_http_length_string [OF s] parse_string_eval)
  have f: "fmt_d 17 = ''17''" by (simp add: fmt_d_def dec_digits.simps digit_char_eval)
  from sim_http_get_sample_follow_up_read [OF a b, of ms_to_ticks_100hz] r p f
  have "\<exists>u'. sim_http_get_sample ms_to_ticks_100hz ?resp ?u = Some u'
        \<and> events u' = concat (map at_exchange (http_action_cmds ms_to_ticks_100hz))
             @ at_exchange (''AT+HTTPREAD=0,17'', ms_to_ticks_100hz 10000)
             @ concat (map at_exchange (teardown_cmds ms_to_ticks_100hz))"
    by auto
  with a b show ?thesis by blast
qed

text \<open>
  Claim C5. Let \<open>r\<close> be the buffer after the eleven commands of this list, issued in
  this order: the five commands of the PDP bring-up, \<^verbatim>\<open>AT+HTTPTERM\<close>, \<^verbatim>\<open>AT+HTTPINIT\<close>,
  \<^verbatim>\<open>AT+HTTPSSL=1\<close>, the two \<^verbatim>\<open>AT+HTTPPARA\<close> and \<^verbatim>\<open>AT+HTTPACTION=0\<close>; and let \<open>len\<close> be
  the length \<open>parse_http_length\<close> returns for \<open>r\<close>. The driver calls of
  \<open>sim_http_get_sample\<close> are one exchange (flush, command line, line terminator, read)
  for each of the eleven commands, then one for \<^verbatim>\<open>AT+HTTPREAD=0,<len>\<close> if \<open>len\<close> is
  positive, then one for \<^verbatim>\<open>AT+HTTPTERM\<close> and one for \<^verbatim>\<open>AT+HTTPSSL=0\<close>: each call of the
  source once, in the order of the source, and nothing else.
\<close>

theorem sim_http_get_sample_sequence:
  assumes "length resp0 = UART_BUF_SIZE"
    and "NUL \<in> set resp0 \<or> take 11 (rx_script u0) \<noteq> replicate 11 RxError"
  shows \<open>\<exists>r u len u'.
      send_all
        [(''AT+CGATT?'', pdMS_TO_TICKS 500),
         (''AT+CGDCONT=1,"IP","everywhere"'', pdMS_TO_TICKS 500),
         (''AT+CGAUTH=1,1,"eesecure","secure"'', pdMS_TO_TICKS 500),
         (''AT+CGACT=1,1'', pdMS_TO_TICKS 2000),
         (''AT+CGPADDR=1'', pdMS_TO_TICKS 500),
         (''AT+HTTPTERM'', pdMS_TO_TICKS 500),
         (''AT+HTTPINIT'', pdMS_TO_TICKS 500),
         (''AT+HTTPSSL=1'', pdMS_TO_TICKS 500),
         (''AT+HTTPPARA="URL","https://alusys.io/test/sample.bin"'', pdMS_TO_TICKS 500),
         (''AT+HTTPPARA="READMODE",1'', pdMS_TO_TICKS 500),
         (''AT+HTTPACTION=0'', pdMS_TO_TICKS 10000)] resp0 u0 = Some (r, u)
    \<and> events u = events u0 @ concat (map at_exchange
        [(''AT+CGATT?'', pdMS_TO_TICKS 500),
         (''AT+CGDCONT=1,"IP","everywhere"'', pdMS_TO_TICKS 500),
         (''AT+CGAUTH=1,1,"eesecure","secure"'', pdMS_TO_TICKS 500),
         (''AT+CGACT=1,1'', pdMS_TO_TICKS 2000),
         (''AT+CGPADDR=1'', pdMS_TO_TICKS 500),
         (''AT+HTTPTERM'', pdMS_TO_TICKS 500),
         (''AT+HTTPINIT'', pdMS_TO_TICKS 500),
         (''AT+HTTPSSL=1'', pdMS_TO_TICKS 500),
         (''AT+HTTPPARA="URL","https://alusys.io/test/sample.bin"'', pdMS_TO_TICKS 500),
         (''AT+HTTPPARA="READMODE",1'', pdMS_TO_TICKS 500),
         (''AT+HTTPACTION=0'', pdMS_TO_TICKS 10000)])
    \<and> parse_http_length r = Some len
    \<and> sim_http_get_sample pdMS_TO_TICKS resp0 u0 = Some u'
    \<and> events u' = events u0 @ concat (map at_exchange
        ([(''AT+CGATT?'', pdMS_TO_TICKS 500),
          (''AT+CGDCONT=1,"IP","everywhere"'', pdMS_TO_TICKS 500),
          (''AT+CGAUTH=1,1,"eesecure","secure"'', pdMS_TO_TICKS 500),
          (''AT+CGACT=1,1'', pdMS_TO_TICKS 2000),
          (''AT+CGPADDR=1'', pdMS_TO_TICKS 500),
          (''AT+HTTPTERM'', pdMS_TO_TICKS 500),
          (''AT+HTTPINIT'', pdMS_TO_TICKS 500),
          (''AT+HTTPSSL=1'', pdMS_TO_TICKS 500),
          (''AT+HTTPPARA="URL","https://alusys.io/test/sample.bin"'', pdMS_TO_TICKS 500),
          (''AT+HTTPPARA="READMODE",1'', pdMS_TO_TICKS 500),
          (''AT+HTTPACTION=0'', pdMS_TO_TICKS 10000)]
         @ (if 0 < len then [(''AT+HTTPREAD=0,'' @ fmt_d len, pdMS_TO_TICKS 10000)] else [])
         @ [(''AT+HTTPTERM'', pdMS_TO_TICKS 500),
          (''AT+HTTPSSL=0'', pdMS_TO_TICKS 500)]))\<close>
proof -
  from sim_http_get_sample_run [OF assms(1), of pdMS_TO_TICKS u0] obtain r u where
    a: "send_all (http_action_cmds pdMS_TO_TICKS) resp0 u0 = Some (r, u)"
    and ev: "events u = events u0 @ concat (map at_exchange (http_action_cmds pdMS_TO_TICKS))"
    and nul: "NUL \<in> set resp0 \<or> take 11 (rx_script u0) \<noteq> replicate 11 RxError \<longrightarrow> NUL \<in> set r"
    and all: "\<forall>len. parse_http_length r = Some len \<longrightarrow>
          (\<exists>u'. sim_http_get_sample pdMS_TO_TICKS resp0 u0 = Some u'
             \<and> events u' = events u0 @ concat (map at_exchange
                 (http_action_cmds pdMS_TO_TICKS
                  @ (if 0 < len then [(''AT+HTTPREAD=0,'' @ fmt_d len, pdMS_TO_TICKS 10000)] else [])
                  @ teardown_cmds pdMS_TO_TICKS)))"
    by blast
  from nul assms(2) have "NUL \<in> set r" by blast
  then obtain len where p: "parse_http_length r = Some len"
    using parse_http_length_Some_iff by blast
  with all obtain u' where
    s: "sim_http_get_sample pdMS_TO_TICKS resp0 u0 = Some u'"
    and e: "events u' = events u0 @ concat (map at_exchange
                 (http_action_cmds pdMS_TO_TICKS
                  @ (if 0 < len then [(''AT+HTTPREAD=0,'' @ fmt_d len, pdMS_TO_TICKS 10000)] else [])
                  @ teardown_cmds pdMS_TO_TICKS))"
    by blast
  show ?thesis
    by (rule exI [of _ r], rule exI [of _ u], rule exI [of _ len], rule exI [of _ u'])
       (intro conjI a [unfolded http_action_cmds_def] ev [unfolded http_action_cmds_def] p s
          e [unfolded http_action_cmds_def teardown_cmds_def])
qed

text \<open>
  The theorem at a run where the reply to \<^verbatim>\<open>AT+HTTPACTION=0\<close> announces 4096 bytes: the
  fourteen exchanges, the read of 4096 bytes among them.
\<close>

theorem sim_http_get_sample_sequence_witness:
  \<open>length (replicate 1024 (CHR ''x'')) = UART_BUF_SIZE
   \<and> (NUL \<in> set (replicate 1024 (CHR ''x''))
       \<or> take 11 (rx_script \<lparr>rx_fifo = [], rx_script = [RxBytes ''OK'', RxBytes ''OK'', RxBytes ''OK'', RxBytes ''OK'', RxBytes ''OK'', RxBytes ''OK'', RxBytes ''OK'', RxBytes ''OK'', RxBytes ''OK'', RxBytes ''OK'',
         RxBytes ''+HTTPACTION: 0,200,4096''], events = []\<rparr>) \<noteq> replicate 11 RxError)
   \<and> (\<exists>u'. sim_http_get_sample ms_to_ticks_100hz (replicate 1024 (CHR ''x''))
          \<lparr>rx_fifo = [], rx_script = [RxBytes ''OK'', RxBytes ''OK'', RxBytes ''OK'', RxBytes ''OK'', RxBytes ''OK'', RxBytes ''OK'', RxBytes ''OK'', RxBytes ''OK'', RxBytes ''OK'', RxBytes ''OK'',
         RxBytes ''+HTTPACTION: 0,200,4096''], events = []\<rparr> = Some u'
        \<and> events u' = concat (map at_exchange
        ([(''AT+CGATT?'', ms_to_ticks_100hz 500),
          (''AT+CGDCONT=1,"IP","everywhere"'', ms_to_ticks_100hz 500),
          (''AT+CGAUTH=1,1,"eesecure","secure"'', ms_to_ticks_100hz 500),
          (''AT+CGACT=1,1'', ms_to_ticks_100hz 2000),
          (''AT+CGPADDR=1'', ms_to_ticks_100hz 500),
          (''AT+HTTPTERM'', ms_to_ticks_100hz 500),
          (''AT+HTTPINIT'', ms_to_ticks_100hz 500),
          (''AT+HTTPSSL=1'', ms_to_ticks_100hz 500),
          (''AT+HTTPPARA="URL","https://alusys.io/test/sample.bin"'', ms_to_ticks_100hz 500),
          (''AT+HTTPPARA="READMODE",1'', ms_to_ticks_100hz 500),
          (''AT+HTTPACTION=0'', ms_to_ticks_100hz 10000)]
         @ [(''AT+HTTPREAD=0,4096'', ms_to_ticks_100hz 10000)]
         @ [(''AT+HTTPTERM'', ms_to_ticks_100hz 500),
          (''AT+HTTPSSL=0'', ms_to_ticks_100hz 500)])))\<close>
proof -
  let ?resp = "(replicate 1024 (CHR ''x''))"
  let ?u = "\<lparr>rx_fifo = [], rx_script = [RxBytes ''OK'', RxBytes ''OK'', RxBytes ''OK'', RxBytes ''OK'', RxBytes ''OK'', RxBytes ''OK'', RxBytes ''OK'', RxBytes ''OK'', RxBytes ''OK'', RxBytes ''OK'',
         RxBytes ''+HTTPACTION: 0,200,4096''], events = []\<rparr>"
  have a: "length ?resp = UART_BUF_SIZE" by (simp add: UART_BUF_SIZE_def)
  have b: "NUL \<in> set ?resp \<or> take 11 (rx_script ?u) \<noteq> replicate 11 RxError"
    by (simp add: eval_nat_numeral)
  from http_action_reply [OF a, of ?u "''+HTTPACTION: 0,200,4096''" ms_to_ticks_100hz]
  obtain r1 u1 where r1: "send_all (http_action_cmds ms_to_ticks_100hz) ?resp ?u = Some (r1, u1)"
    and s: "c_string r1 = Some ''+HTTPACTION: 0,200,4096''"
    by (auto simp: UART_BUF_SIZE_def NUL_def)
  have p: "parse_http_length r1 = Some 4096"
    by (simp add: parse_http_length_string [OF s] parse_string_eval)
  have f: "fmt_d 4096 = ''4096''" by (simp add: fmt_d_def dec_digits.simps digit_char_eval)
  from sim_http_get_sample_sequence [OF a b, of ms_to_ticks_100hz] r1 [unfolded http_action_cmds_def] p f
  have \<open>\<exists>u'. sim_http_get_sample ms_to_ticks_100hz ?resp ?u = Some u'
        \<and> events u' = concat (map at_exchange
        ([(''AT+CGATT?'', ms_to_ticks_100hz 500),
          (''AT+CGDCONT=1,"IP","everywhere"'', ms_to_ticks_100hz 500),
          (''AT+CGAUTH=1,1,"eesecure","secure"'', ms_to_ticks_100hz 500),
          (''AT+CGACT=1,1'', ms_to_ticks_100hz 2000),
          (''AT+CGPADDR=1'', ms_to_ticks_100hz 500),
          (''AT+HTTPTERM'', ms_to_ticks_100hz 500),
          (''AT+HTTPINIT'', ms_to_ticks_100hz 500),
          (''AT+HTTPSSL=1'', ms_to_ticks_100hz 500),
          (''AT+HTTPPARA="URL","https://alusys.io/test/sample.bin"'', ms_to_ticks_100hz 500),
          (''AT+HTTPPARA="READMODE",1'', ms_to_ticks_100hz 500),
          (''AT+HTTPACTION=0'', ms_to_ticks_100hz 10000)]
         @ [(''AT+HTTPREAD=0,4096'', ms_to_ticks_100hz 10000)]
         @ [(''AT+HTTPTERM'', ms_to_ticks_100hz 500),
          (''AT+HTTPSSL=0'', ms_to_ticks_100hz 500)]))\<close>
    by auto
  with a b show ?thesis by blast
qed




text \<open>
  Claim C9. A \<open>send_at\<close> whose read fails returns \<open>ESP_FAIL\<close> and leaves the buffer as
  it was, the terminator not written. If the read of the \<^verbatim>\<open>AT+HTTPACTION=0\<close> step (the
  eleventh) fails, \<open>sim_http_get_sample\<close> applies \<open>parse_http_length\<close> to the buffer \<open>r\<close>
  that the ten commands before left: the string in \<open>r\<close> is the reply to the latest of
  them whose read delivered bytes (cut at 1023 bytes and at its first NUL), and \<open>r\<close> is
  still the array as it was on entry when each of their reads failed too.
\<close>

theorem send_at_error_keeps_buffer:
  "(\<forall>cmd s resp_buf buf_size ticks u.
      c_string cmd = Some s \<and> rx_next u = RxError \<longrightarrow>
      (\<exists>u'. send_at cmd resp_buf buf_size ticks u = Some (ESP_FAIL, resp_buf, u')))
   \<and> (length resp0 = UART_BUF_SIZE \<and> 10 < length (rx_script u0) \<and> rx_script u0 ! 10 = RxError \<longrightarrow>
      (\<exists>r u u'.
          send_all (take 10 (http_action_cmds pdMS_TO_TICKS)) resp0 u0 = Some (r, u)
        \<and> send_at (lit ''AT+HTTPACTION=0'') r (of_nat UART_BUF_SIZE) (pdMS_TO_TICKS 10000) u
            = Some (ESP_FAIL, r, u')
        \<and> sim_http_get_sample pdMS_TO_TICKS resp0 u0 =
            (case parse_http_length r of
               None \<Rightarrow> None
             | Some len \<Rightarrow>
                 map_option snd
                   (send_all ((if 0 < len
                               then [(''AT+HTTPREAD=0,'' @ fmt_d len, pdMS_TO_TICKS 10000)]
                               else []) @ teardown_cmds pdMS_TO_TICKS) r u'))
        \<and> (\<forall>j d. j < 10 \<and> rx_script u0 ! j = RxBytes d
                 \<and> (\<forall>i. j < i \<and> i < 10 \<longrightarrow> rx_script u0 ! i = RxError) \<longrightarrow>
              c_string r = Some (takeWhile (\<lambda>c. c \<noteq> NUL) (take (UART_BUF_SIZE - 1) d)))
        \<and> (take 10 (rx_script u0) = replicate 10 RxError \<longrightarrow> r = resp0)))"
proof -
  have a: "\<exists>u'. send_at cmd resp_buf buf_size ticks u = Some (ESP_FAIL, resp_buf, u')"
    if "c_string cmd = Some s \<and> rx_next u = RxError" for cmd s resp_buf buf_size ticks u
    using send_at_error [of cmd s u resp_buf buf_size ticks] that by simp
  have b: "\<exists>r u u'.
          send_all (take 10 (http_action_cmds pdMS_TO_TICKS)) resp0 u0 = Some (r, u)
        \<and> send_at (lit ''AT+HTTPACTION=0'') r (of_nat UART_BUF_SIZE) (pdMS_TO_TICKS 10000) u
            = Some (ESP_FAIL, r, u')
        \<and> sim_http_get_sample pdMS_TO_TICKS resp0 u0 =
            (case parse_http_length r of
               None \<Rightarrow> None
             | Some len \<Rightarrow>
                 map_option snd
                   (send_all ((if 0 < len
                               then [(''AT+HTTPREAD=0,'' @ fmt_d len, pdMS_TO_TICKS 10000)]
                               else []) @ teardown_cmds pdMS_TO_TICKS) r u'))
        \<and> (\<forall>j d. j < 10 \<and> rx_script u0 ! j = RxBytes d
                 \<and> (\<forall>i. j < i \<and> i < 10 \<longrightarrow> rx_script u0 ! i = RxError) \<longrightarrow>
              c_string r = Some (takeWhile (\<lambda>c. c \<noteq> NUL) (take (UART_BUF_SIZE - 1) d)))
        \<and> (take 10 (rx_script u0) = replicate 10 RxError \<longrightarrow> r = resp0)"
    if h: "length resp0 = UART_BUF_SIZE \<and> 10 < length (rx_script u0) \<and> rx_script u0 ! 10 = RxError"
  proof -
    let ?c10 = "take 10 (http_action_cmds pdMS_TO_TICKS)"
    have nul: "NUL \<notin> set ''AT+HTTPACTION=0''" by (simp add: NUL_def)
    from h have len0: "length resp0 = UART_BUF_SIZE" and n10: "length ?c10 < length (rx_script u0)"
      by (simp_all add: http_action_cmds_split(2) del: length_take)
    from send_all_snoc [OF take_cmds_no_NUL nul(1) len0 n10, of "pdMS_TO_TICKS 10000"] h
    obtain r u r' u' where
      s10: "send_all ?c10 resp0 u0 = Some (r, u)"
      and at: "send_at (lit ''AT+HTTPACTION=0'') r (of_nat UART_BUF_SIZE) (pdMS_TO_TICKS 10000) u
            = Some (ESP_FAIL, r', u')"
      and all: "send_all (?c10 @ [(''AT+HTTPACTION=0'', pdMS_TO_TICKS 10000)]) resp0 u0 = Some (r', u')"
      and same: "r' = r"
      by (auto simp: http_action_cmds_split(2) simp del: length_take)
    from all same have s11: "send_all (http_action_cmds pdMS_TO_TICKS) resp0 u0 = Some (r, u')"
      by (simp only: http_action_cmds_split(1))
    have sim: "sim_http_get_sample pdMS_TO_TICKS resp0 u0 =
            (case parse_http_length r of
               None \<Rightarrow> None
             | Some len \<Rightarrow>
                 map_option snd
                   (send_all ((if 0 < len
                               then [(''AT+HTTPREAD=0,'' @ fmt_d len, pdMS_TO_TICKS 10000)]
                               else []) @ teardown_cmds pdMS_TO_TICKS) r u'))"
    proof -
      have base: "sim_http_get_sample pdMS_TO_TICKS resp0 u0 =
            (case parse_http_length r of
               None \<Rightarrow> None
             | Some len \<Rightarrow>
                 map_option snd
                   (send_all ((if 0 < len
                               then [(take 31 (''AT+HTTPREAD=0,'' @ fmt_d len), pdMS_TO_TICKS 10000)]
                               else []) @ teardown_cmds pdMS_TO_TICKS) r u'))"
        unfolding sim_http_get_sample_unfold s11 by (simp only: option.case prod.case)
      show ?thesis
      proof (cases "parse_http_length r")
        case None
        show ?thesis unfolding base None by (simp only: option.case)
      next
        case (Some len)
        from parse_http_length_range [OF Some] have rng: "INT_MIN \<le> len" "len \<le> INT_MAX"
          by simp_all
        show ?thesis unfolding base Some by (simp only: option.case read_cmd_fits [OF rng])
      qed
    qed
    have stale: "\<forall>j d. j < 10 \<and> rx_script u0 ! j = RxBytes d
                 \<and> (\<forall>i. j < i \<and> i < 10 \<longrightarrow> rx_script u0 ! i = RxError) \<longrightarrow>
              c_string r = Some (takeWhile (\<lambda>c. c \<noteq> NUL) (take (UART_BUF_SIZE - 1) d))"
    proof (intro allI impI)
      fix j d
      assume jd: "j < 10 \<and> rx_script u0 ! j = RxBytes d
                 \<and> (\<forall>i. j < i \<and> i < 10 \<longrightarrow> rx_script u0 ! i = RxError)"
      have l10: "length ?c10 = 10" by (rule http_action_cmds_split(2))
      from h have n: "length ?c10 \<le> length (rx_script u0)" unfolding l10 by simp
      from jd have j: "j < length ?c10" unfolding l10 by simp
      from jd have d: "rx_script u0 ! j = RxBytes d" by simp
      from jd have e: "\<forall>i. j < i \<and> i < length ?c10 \<longrightarrow> rx_script u0 ! i = RxError"
        unfolding l10 by simp
      from send_all_last_reply [OF take_cmds_no_NUL len0 j n d e] s10
      show "c_string r = Some (takeWhile (\<lambda>c. c \<noteq> NUL) (take (UART_BUF_SIZE - 1) d))"
        by auto
    qed
    have init: "take 10 (rx_script u0) = replicate 10 RxError \<longrightarrow> r = resp0"
    proof
      assume "take 10 (rx_script u0) = replicate 10 RxError"
      then have "take (length ?c10) (rx_script u0) = replicate (length ?c10) RxError"
        by (simp only: http_action_cmds_split(2))
      from send_all_errors_keep [OF take_cmds_no_NUL len0 this] s10 show "r = resp0" by auto
    qed
    from s10 at same sim stale init show ?thesis by blast
  qed
  from a b show ?thesis by blast
qed

text \<open>
  The theorem at a failing read on a buffer that holds an old reply, and at a run where
  the reply to the tenth command is \<^verbatim>\<open>+HTTPACTION: 0,200,77\<close> and the eleventh read fails:
  the length parsed is 77 and the follow-up read asks for 77 bytes.
\<close>

theorem send_at_error_keeps_buffer_witness:
  "c_string (lit ''AT'') = Some ''AT''
   \<and> rx_next \<lparr>rx_fifo = ''junk'', rx_script = [RxError], events = []\<rparr> = RxError
   \<and> (\<exists>u'. send_at (lit ''AT'') ''old reply'' 10 50
               \<lparr>rx_fifo = ''junk'', rx_script = [RxError], events = []\<rparr>
             = Some (ESP_FAIL, ''old reply'', u'))
   \<and> length (replicate 1024 (CHR ''x'')) = UART_BUF_SIZE
   \<and> 10 < length (rx_script \<lparr>rx_fifo = [], rx_script = [RxBytes ''OK'', RxBytes ''OK'', RxBytes ''OK'', RxBytes ''OK'', RxBytes ''OK'',
             RxBytes ''OK'', RxBytes ''OK'', RxBytes ''OK'', RxBytes ''OK'',
             RxBytes ''+HTTPACTION: 0,200,77'', RxError], events = []\<rparr>)
   \<and> rx_script \<lparr>rx_fifo = [], rx_script = [RxBytes ''OK'', RxBytes ''OK'', RxBytes ''OK'', RxBytes ''OK'', RxBytes ''OK'',
             RxBytes ''OK'', RxBytes ''OK'', RxBytes ''OK'', RxBytes ''OK'',
             RxBytes ''+HTTPACTION: 0,200,77'', RxError], events = []\<rparr> ! 10 = RxError
   \<and> (\<exists>r u u'.
          send_all (take 10 (http_action_cmds ms_to_ticks_100hz)) (replicate 1024 (CHR ''x''))
            \<lparr>rx_fifo = [], rx_script = [RxBytes ''OK'', RxBytes ''OK'', RxBytes ''OK'', RxBytes ''OK'', RxBytes ''OK'',
             RxBytes ''OK'', RxBytes ''OK'', RxBytes ''OK'', RxBytes ''OK'',
             RxBytes ''+HTTPACTION: 0,200,77'', RxError], events = []\<rparr> = Some (r, u)
        \<and> send_at (lit ''AT+HTTPACTION=0'') r (of_nat UART_BUF_SIZE) (ms_to_ticks_100hz 10000) u
            = Some (ESP_FAIL, r, u')
        \<and> c_string r = Some ''+HTTPACTION: 0,200,77''
        \<and> parse_http_length r = Some 77
        \<and> sim_http_get_sample ms_to_ticks_100hz (replicate 1024 (CHR ''x''))
            \<lparr>rx_fifo = [], rx_script = [RxBytes ''OK'', RxBytes ''OK'', RxBytes ''OK'', RxBytes ''OK'', RxBytes ''OK'',
             RxBytes ''OK'', RxBytes ''OK'', RxBytes ''OK'', RxBytes ''OK'',
             RxBytes ''+HTTPACTION: 0,200,77'', RxError], events = []\<rparr> =
            map_option snd
              (send_all ([(''AT+HTTPREAD=0,77'', ms_to_ticks_100hz 10000)] @ teardown_cmds ms_to_ticks_100hz) r u'))"
proof -
  let ?resp = "replicate 1024 (CHR ''x'')"
  let ?u = "\<lparr>rx_fifo = [], rx_script = [RxBytes ''OK'', RxBytes ''OK'', RxBytes ''OK'', RxBytes ''OK'', RxBytes ''OK'',
             RxBytes ''OK'', RxBytes ''OK'', RxBytes ''OK'', RxBytes ''OK'',
             RxBytes ''+HTTPACTION: 0,200,77'', RxError], events = []\<rparr>"
  let ?v = "\<lparr>rx_fifo = ''junk'', rx_script = [RxError], events = []\<rparr>"
  have a: "c_string (lit ''AT'') = Some ''AT''" by (simp add: c_string_def lit_def NUL_def)
  have b: "rx_next ?v = RxError" by (simp add: rx_next_def)
  have c: "length ?resp = UART_BUF_SIZE" by (simp add: UART_BUF_SIZE_def)
  have d: "10 < length (rx_script ?u)" "rx_script ?u ! 10 = RxError" by simp_all
  have e: "rx_script ?u ! 9 = RxBytes ''+HTTPACTION: 0,200,77''" by simp
  have f: "fmt_d 77 = ''77''" by (simp add: fmt_d_def dec_digits.simps digit_char_eval)
  note inst = send_at_error_keeps_buffer [of ?resp ?u ms_to_ticks_100hz]
  from inst a b have 1: "\<exists>u'. send_at (lit ''AT'') ''old reply'' 10 50 ?v
      = Some (ESP_FAIL, ''old reply'', u')"
    by blast
  from inst c d obtain r u u' where
    s: "send_all (take 10 (http_action_cmds ms_to_ticks_100hz)) ?resp ?u = Some (r, u)"
    and at: "send_at (lit ''AT+HTTPACTION=0'') r (of_nat UART_BUF_SIZE) (ms_to_ticks_100hz 10000) u
            = Some (ESP_FAIL, r, u')"
    and sim: "sim_http_get_sample ms_to_ticks_100hz ?resp ?u =
            (case parse_http_length r of
               None \<Rightarrow> None
             | Some len \<Rightarrow>
                 map_option snd
                   (send_all ((if 0 < len
                               then [(''AT+HTTPREAD=0,'' @ fmt_d len, ms_to_ticks_100hz 10000)]
                               else []) @ teardown_cmds ms_to_ticks_100hz) r u'))"
    and st: "\<forall>j d. j < 10 \<and> rx_script ?u ! j = RxBytes d
                 \<and> (\<forall>i. j < i \<and> i < 10 \<longrightarrow> rx_script ?u ! i = RxError) \<longrightarrow>
              c_string r = Some (takeWhile (\<lambda>c. c \<noteq> NUL) (take (UART_BUF_SIZE - 1) d))"
    by blast
  have "(9::nat) < 10 \<and> rx_script ?u ! 9 = RxBytes ''+HTTPACTION: 0,200,77''
      \<and> (\<forall>i. 9 < i \<and> i < 10 \<longrightarrow> rx_script ?u ! i = RxError)"
    using e by auto
  with st have "c_string r = Some (takeWhile (\<lambda>c. c \<noteq> NUL)
      (take (UART_BUF_SIZE - 1) ''+HTTPACTION: 0,200,77''))"
    by blast
  then have cs: "c_string r = Some ''+HTTPACTION: 0,200,77''"
    by (simp add: UART_BUF_SIZE_def NUL_def)
  have p: "parse_http_length r = Some 77"
    by (simp add: parse_http_length_string [OF cs] parse_string_eval)
  from sim p f have "sim_http_get_sample ms_to_ticks_100hz ?resp ?u =
            map_option snd
              (send_all ([(''AT+HTTPREAD=0,77'', ms_to_ticks_100hz 10000)] @ teardown_cmds ms_to_ticks_100hz) r u')"
    by simp
  with s at cs p have 2: "\<exists>r u u'.
          send_all (take 10 (http_action_cmds ms_to_ticks_100hz)) ?resp ?u = Some (r, u)
        \<and> send_at (lit ''AT+HTTPACTION=0'') r (of_nat UART_BUF_SIZE) (ms_to_ticks_100hz 10000) u
            = Some (ESP_FAIL, r, u')
        \<and> c_string r = Some ''+HTTPACTION: 0,200,77''
        \<and> parse_http_length r = Some 77
        \<and> sim_http_get_sample ms_to_ticks_100hz ?resp ?u =
            map_option snd
              (send_all ([(''AT+HTTPREAD=0,77'', ms_to_ticks_100hz 10000)] @ teardown_cmds ms_to_ticks_100hz) r u')"
    by blast
  from a b 1 c d 2 show ?thesis by blast
qed

end
